theory Spec2Isabelle
  imports Main "HOL-Library.Sublist"
begin

section \<open>Python strings\<close>

text \<open>
  A Python \<open>str\<close> is modelled as a \<open>string\<close>; a \<open>char\<close> stands for the code point
  of the same number, so the texts covered are those over the code points 0..255 and
  \<open>length\<close> is Python's \<open>len\<close>. Offsets and line numbers are natural numbers; the line
  range returned by \<open>search_hdr\<close> is a pair of integers, because the code subtracts one
  from a line number that may be zero.
\<close>

text \<open>\<open>s.split(c)\<close> for a separator of one character.\<close>

fun py_split :: "char \<Rightarrow> string \<Rightarrow> string list" where
  "py_split c [] = [[]]"
| "py_split c (x # xs) =
     (if x = c then [] # py_split c xs
      else (case py_split c xs of l # ls \<Rightarrow> (x # l) # ls | [] \<Rightarrow> [[x]]))"

text \<open>\<open>sep.join(xs)\<close>.\<close>

fun py_join :: "string \<Rightarrow> string list \<Rightarrow> string" where
  "py_join sep [] = []"
| "py_join sep [x] = x"
| "py_join sep (x # y # ys) = x @ sep @ py_join sep (y # ys)"

text \<open>
  \<open>s.replace(old, new)\<close>: every occurrence of \<open>old\<close>, found from the left and not
  overlapping, becomes \<open>new\<close>. With an empty \<open>old\<close> Python puts \<open>new\<close> before every
  character and at the end.
\<close>

function py_replace :: "string \<Rightarrow> string \<Rightarrow> string \<Rightarrow> string" where
  "py_replace old new s =
     (if old = [] then new @ concat (map (\<lambda>c. c # new) s)
      else if s = [] then []
      else if prefix old s then new @ py_replace old new (drop (length old) s)
      else hd s # py_replace old new (tl s))"
  by pat_completeness auto
termination
  by (relation "measure (\<lambda>(old, new, s). length s)") (auto simp: prefix_def)

declare py_replace.simps [simp del]

section \<open>The pattern \<open>func_re\<close> and Python's matching engine\<close>

text \<open>
  \<open>\s\<close> and \<open>\w\<close> of a \<open>str\<close> pattern follow \<open>str.isspace\<close> and \<open>str.isalnum\<close> (with the
  underscore); the tables below are theirs on the code points 0..255.
\<close>

definition is_space :: "char \<Rightarrow> bool" where
  "is_space c = (c \<in> set [CHR 0x09, CHR 0x0A, CHR 0x0B, CHR 0x0C, CHR 0x0D,
                            CHR 0x1C, CHR 0x1D, CHR 0x1E, CHR 0x1F, CHR 0x20,
                            CHR 0x85, CHR 0xA0])"

definition is_word :: "char \<Rightarrow> bool" where
  "is_word c =
     (let n = (of_char c :: nat) in
        (48 \<le> n \<and> n \<le> 57) \<or> (65 \<le> n \<and> n \<le> 90) \<or> n = 95 \<or> (97 \<le> n \<and> n \<le> 122) \<or>
        n \<in> set [170, 178, 179, 181, 185, 186, 188, 189, 190] \<or>
        (192 \<le> n \<and> n \<le> 214) \<or> (216 \<le> n \<and> n \<le> 246) \<or> 248 \<le> n)"

text \<open>
  The pattern is a sequence of items. Every repetition of \<open>func_re\<close> is over a class of
  single characters: a literal, \<open>\s\<close>, \<open>\w\<close>, or \<open>.\<close> (any character, the
  pattern being compiled with \<open>re.DOTALL\<close>). The quantifiers are none, \<open>?\<close>, \<open>*\<close>, \<open>+\<close>
  and the lazy \<open>*?\<close>. \<open>Alt\<close> is an alternative of literal words, \<open>Named\<close> a named group
  around one repetition.
\<close>

datatype cls = Lit char | Space | Word | Dot

fun in_cls :: "cls \<Rightarrow> char \<Rightarrow> bool" where
  "in_cls (Lit a) c = (c = a)"
| "in_cls Space c = is_space c"
| "in_cls Word c = is_word c"
| "in_cls Dot c = True"

datatype quant = One | Opt | Star | Plus | LazyStar

datatype item = Rep cls quant | Alt "string list" | Named string cls quant

text \<open>
  The pattern of the source, \<open>re.VERBOSE\<close> having removed its white space and comments:
  \<^verbatim>\<open>/\*+ \s+\[(?:docimport|docexport)\s+\w*\]\s+ \*//\*\* .*? \*+/\n\<close>
  \<^verbatim>\<open>\w+\s*[*]?\s*(?P<name>\w+)\(.*?\);?\<close>
\<close>

definition func_re :: "item list" where
  "func_re =
    [Rep (Lit CHR ''/'') One, Rep (Lit CHR ''*'') Plus,
     Rep Space Plus, Rep (Lit CHR ''['') One, Alt [''docimport'', ''docexport''],
     Rep Space Plus, Rep Word Star, Rep (Lit CHR '']'') One, Rep Space Plus,
     Rep (Lit CHR ''*'') One, Rep (Lit CHR ''/'') One, Rep (Lit CHR ''/'') One,
     Rep (Lit CHR ''*'') One, Rep (Lit CHR ''*'') One,
     Rep Dot LazyStar,
     Rep (Lit CHR ''*'') Plus, Rep (Lit CHR ''/'') One, Rep (Lit CHR 0x0A) One,
     Rep Word Plus, Rep Space Star, Rep (Lit CHR ''*'') Opt, Rep Space Star,
     Named ''name'' Word Plus, Rep (Lit CHR ''('') One, Rep Dot LazyStar,
     Rep (Lit CHR '')'') One, Rep (Lit CHR '';'') Opt]"

text \<open>
  The engine backtracks. For a repetition over a run of \<open>m\<close> fitting characters it tries
  the numbers of repetitions in the order \<open>counts\<close> gives: a greedy quantifier from the
  longest down, the lazy one from zero up. The first number with which the rest of the
  pattern matches is taken.
\<close>

fun counts :: "quant \<Rightarrow> nat \<Rightarrow> nat list" where
  "counts One m = (if 1 \<le> m then [1] else [])"
| "counts Opt m = (if 1 \<le> m then [1, 0] else [0])"
| "counts Star m = rev [0..<Suc m]"
| "counts Plus m = rev [1..<Suc m]"
| "counts LazyStar m = [0..<Suc m]"

fun first_some :: "('a \<Rightarrow> 'b option) \<Rightarrow> 'a list \<Rightarrow> 'b option" where
  "first_some f [] = None"
| "first_some f (x # xs) = (case f x of Some r \<Rightarrow> Some r | None \<Rightarrow> first_some f xs)"

text \<open>
  \<open>bt p s\<close> matches the pattern \<open>p\<close> at the beginning of \<open>s\<close>. The result lists, item by
  item, the piece of \<open>s\<close> each item has taken; their concatenation is the matched text.
\<close>

fun bt :: "item list \<Rightarrow> string \<Rightarrow> string list option" where
  "bt [] s = Some []"
| "bt (Rep c q # r) s =
     first_some (\<lambda>n. map_option ((#) (take n s)) (bt r (drop n s)))
       (counts q (length (takeWhile (in_cls c) s)))"
| "bt (Named g c q # r) s =
     first_some (\<lambda>n. map_option ((#) (take n s)) (bt r (drop n s)))
       (counts q (length (takeWhile (in_cls c) s)))"
| "bt (Alt ws # r) s =
     first_some (\<lambda>w. if prefix w s then map_option ((#) w) (bt r (drop (length w) s)) else None) ws"

text \<open>\<open>match.group(g)\<close> for a named group of the pattern.\<close>

fun group :: "string \<Rightarrow> item list \<Rightarrow> string list \<Rightarrow> string" where
  "group g (Named h c q # r) (p # ps) = (if h = g then p else group g r ps)"
| "group g (Rep c q # r) (p # ps) = group g r ps"
| "group g (Alt ws # r) (p # ps) = group g r ps"
| "group g r ps = []"

text \<open>What the pattern means, without an engine: which pieces an item may take.\<close>

fun len_ok :: "quant \<Rightarrow> nat \<Rightarrow> bool" where
  "len_ok One n = (n = 1)"
| "len_ok Opt n = (n \<le> 1)"
| "len_ok Star n = True"
| "len_ok Plus n = (1 \<le> n)"
| "len_ok LazyStar n = True"

fun piece_ok :: "item \<Rightarrow> string \<Rightarrow> bool" where
  "piece_ok (Rep c q) p = (list_all (in_cls c) p \<and> len_ok q (length p))"
| "piece_ok (Named g c q) p = (list_all (in_cls c) p \<and> len_ok q (length p))"
| "piece_ok (Alt ws) p = (p \<in> set ws)"

text \<open>
  A text matches the pattern with the name \<open>nm\<close> when it splits into pieces, one for
  each item of the pattern in its order, the piece of the named group being \<open>nm\<close>.
\<close>

definition func_re_block :: "string \<Rightarrow> string \<Rightarrow> bool" where
  "func_re_block b nm =
     (\<exists>ps. list_all2 piece_ok func_re ps \<and> concat ps = b \<and> group ''name'' func_re ps = nm)"

subsection \<open>The engine against the meaning of the pattern\<close>

lemma first_some_Some:
  "first_some f xs = Some r \<Longrightarrow> \<exists>x \<in> set xs. f x = Some r"
  by (induction xs) (auto split: option.splits)

lemma first_some_None:
  "first_some f xs = None \<longleftrightarrow> (\<forall>x \<in> set xs. f x = None)"
  by (induction xs) (auto split: option.splits)

lemma counts_len_ok: "n \<in> set (counts q m) \<Longrightarrow> len_ok q n \<and> n \<le> m"
  by (cases q) (auto split: if_splits)

lemma counts_complete: "len_ok q n \<Longrightarrow> n \<le> m \<Longrightarrow> n \<in> set (counts q m)"
  by (cases q) auto

lemma take_run:
  "n \<le> length (takeWhile P s) \<Longrightarrow> take n s = take n (takeWhile P s)"
proof (induction s arbitrary: n)
  case Nil
  then show ?case by simp
next
  case (Cons x xs)
  then show ?case by (cases n) (auto split: if_splits)
qed

lemma take_run_all:
  "n \<le> length (takeWhile P s) \<Longrightarrow> list_all P (take n s)"
proof -
  assume n: "n \<le> length (takeWhile P s)"
  have "set (take n (takeWhile P s)) \<subseteq> set (takeWhile P s)"
    by (rule set_take_subset)
  with take_run [OF n] show ?thesis
    by (auto simp: list_all_iff dest: set_takeWhileD)
qed

lemma run_covers:
  "list_all P p \<Longrightarrow> prefix p s \<Longrightarrow> length p \<le> length (takeWhile P s)"
  by (auto simp: prefix_def list_all_iff takeWhile_append2)

lemma bt_sound:
  "bt p s = Some ps \<Longrightarrow> list_all2 piece_ok p ps \<and> prefix (concat ps) s"
proof (induction p s arbitrary: ps rule: bt.induct)
  case (1 s)
  then show ?case by simp
next
  case (2 c q r s)
  from "2.prems" obtain n where n: "n \<in> set (counts q (length (takeWhile (in_cls c) s)))"
    and m: "map_option ((#) (take n s)) (bt r (drop n s)) = Some ps"
    by (auto dest: first_some_Some)
  from m obtain qs where qs: "bt r (drop n s) = Some qs" "ps = take n s # qs" by auto
  from "2.IH" [OF qs(1)] have ih: "list_all2 piece_ok r qs" "prefix (concat qs) (drop n s)"
    by auto
  from counts_len_ok [OF n] have le: "len_ok q n" "n \<le> length (takeWhile (in_cls c) s)"
    by auto
  then have "n \<le> length s"
    using length_takeWhile_le [of "in_cls c" s] by linarith
  with le ih qs(2) take_run_all [OF le(2)] show ?case
    by (auto simp: prefix_def min_def) (metis append_take_drop_id)
next
  case (3 g c q r s)
  from "3.prems" obtain n where n: "n \<in> set (counts q (length (takeWhile (in_cls c) s)))"
    and m: "map_option ((#) (take n s)) (bt r (drop n s)) = Some ps"
    by (auto dest: first_some_Some)
  from m obtain qs where qs: "bt r (drop n s) = Some qs" "ps = take n s # qs" by auto
  from "3.IH" [OF qs(1)] have ih: "list_all2 piece_ok r qs" "prefix (concat qs) (drop n s)"
    by auto
  from counts_len_ok [OF n] have le: "len_ok q n" "n \<le> length (takeWhile (in_cls c) s)"
    by auto
  then have "n \<le> length s"
    using length_takeWhile_le [of "in_cls c" s] by linarith
  with le ih qs(2) take_run_all [OF le(2)] show ?case
    by (auto simp: prefix_def min_def) (metis append_take_drop_id)
next
  case (4 ws r s)
  from "4.prems" obtain w where w: "w \<in> set ws" "prefix w s"
    and m: "map_option ((#) w) (bt r (drop (length w) s)) = Some ps"
    by (auto dest!: first_some_Some split: if_splits)
  from m obtain qs where qs: "bt r (drop (length w) s) = Some qs" "ps = w # qs" by auto
  from "4.IH" [OF w(2) qs(1)] have "list_all2 piece_ok r qs" "prefix (concat qs) (drop (length w) s)"
    by auto
  with w qs(2) show ?case
    by (auto simp: prefix_def)
qed

lemma bt_complete:
  "list_all2 piece_ok p ps \<Longrightarrow> prefix (concat ps) s \<Longrightarrow> bt p s \<noteq> None"
proof (induction p s arbitrary: ps rule: bt.induct)
  case (1 s)
  then show ?case by simp
next
  case (2 c q r s)
  from "2.prems"(1) obtain x qs where ps: "ps = x # qs" and x: "piece_ok (Rep c q) x"
    and qs: "list_all2 piece_ok r qs"
    by (auto simp: list_all2_Cons1)
  from "2.prems"(2) ps have px: "prefix x s" and pq: "prefix (concat qs) (drop (length x) s)"
    by (auto simp: prefix_def)
  from x px have le: "length x \<le> length (takeWhile (in_cls c) s)"
    by (auto intro: run_covers)
  from x have "len_ok q (length x)" by simp
  from counts_complete [OF this le]
  have mem: "length x \<in> set (counts q (length (takeWhile (in_cls c) s)))" .
  from "2.IH" [OF qs pq] have "bt r (drop (length x) s) \<noteq> None" .
  with mem show ?case
    by (auto simp: first_some_None)
next
  case (3 g c q r s)
  from "3.prems"(1) obtain x qs where ps: "ps = x # qs" and x: "piece_ok (Named g c q) x"
    and qs: "list_all2 piece_ok r qs"
    by (auto simp: list_all2_Cons1)
  from "3.prems"(2) ps have px: "prefix x s" and pq: "prefix (concat qs) (drop (length x) s)"
    by (auto simp: prefix_def)
  from x px have le: "length x \<le> length (takeWhile (in_cls c) s)"
    by (auto intro: run_covers)
  from x have "len_ok q (length x)" by simp
  from counts_complete [OF this le]
  have mem: "length x \<in> set (counts q (length (takeWhile (in_cls c) s)))" .
  from "3.IH" [OF qs pq] have "bt r (drop (length x) s) \<noteq> None" .
  with mem show ?case
    by (auto simp: first_some_None)
next
  case (4 ws r s)
  from "4.prems"(1) obtain x qs where ps: "ps = x # qs" and x: "x \<in> set ws"
    and qs: "list_all2 piece_ok r qs"
    by (auto simp: list_all2_Cons1)
  from "4.prems"(2) ps have px: "prefix x s" and pq: "prefix (concat qs) (drop (length x) s)"
    by (auto simp: prefix_def)
  from "4.IH" [OF px qs pq] have "bt r (drop (length x) s) \<noteq> None" .
  with x px show ?case
    by (auto simp: first_some_None)
qed

lemma func_re_nonempty:
  assumes "bt func_re s = Some ps"
  shows "0 < length (concat ps)" and "length (concat ps) \<le> length s"
proof -
  from bt_sound [OF assms] have a: "list_all2 piece_ok func_re ps" and b: "prefix (concat ps) s"
    by auto
  from a obtain x qs where "ps = x # qs" "piece_ok (Rep (Lit CHR ''/'') One) x"
    by (auto simp: func_re_def list_all2_Cons1)
  then show "0 < length (concat ps)" by auto
  from b show "length (concat ps) \<le> length s" by (rule prefix_length_le)
qed

section \<open>The matches of a text\<close>

text \<open>A match object: \<open>span()\<close>, \<open>group(0)\<close> and \<open>group('name')\<close>.\<close>

record re_match =
  m_span :: "nat \<times> nat"
  m_group0 :: string
  m_name :: string

text \<open>
  \<open>func_re.finditer(text)\<close>: the engine is tried at every offset from the left; after a
  match the search goes on at the end of the match. (The pattern begins with a literal
  \<open>/\<close>, so no match is empty.) \<open>finditer_from pos s\<close> scans the rest \<open>s\<close> of the text that
  begins at offset \<open>pos\<close>.
\<close>

function finditer_from :: "nat \<Rightarrow> string \<Rightarrow> re_match list" where
  "finditer_from pos s =
     (case bt func_re s of
        Some ps \<Rightarrow>
          \<lparr>m_span = (pos, pos + length (concat ps)), m_group0 = concat ps,
           m_name = group ''name'' func_re ps\<rparr>
          # finditer_from (pos + length (concat ps)) (drop (length (concat ps)) s)
      | None \<Rightarrow> (if s = [] then [] else finditer_from (Suc pos) (tl s)))"
  by pat_completeness auto
termination
proof (relation "measure (\<lambda>(pos, s). length s)")
  show "wf (measure (\<lambda>(pos, s). length s))" by simp
next
  fix pos :: nat and s :: string and ps
  assume m: "bt func_re s = Some ps"
  define n where "n = length (concat ps)"
  from func_re_nonempty [OF m] have "0 < n" "n \<le> length s"
    unfolding n_def by blast+
  then have "((pos + n, drop n s), (pos, s)) \<in> measure (\<lambda>(pos, s). length s)"
    by simp
  then show "((pos + length (concat ps), drop (length (concat ps)) s), (pos, s))
        \<in> measure (\<lambda>(pos, s). length s)"
    unfolding n_def .
next
  fix pos :: nat and s :: string
  assume "s \<noteq> []"
  then show "((Suc pos, tl s), (pos, s)) \<in> measure (\<lambda>(pos, s). length s)"
    by (cases s) simp_all
qed

declare finditer_from.simps [simp del]

definition finditer :: "string \<Rightarrow> re_match list" where
  "finditer text = finditer_from 0 text"

section \<open>The session\<close>

text \<open>
  \<open>class Func\<close> and \<open>class Docsync\<close>. \<open>__init__\<close> sets \<open>start\<close> and \<open>end\<close> to \<open>None\<close> and
  does not create the attribute \<open>funcs\<close>: \<open>funcs = None\<close> stands for the missing attribute.
  (\<open>end\<close> is a keyword of Isabelle, hence \<open>end_pos\<close>.)
\<close>

record Func =
  name :: string
  span :: "nat \<times> nat"
  substring :: string

record Docsync =
  start :: "nat option"
  end_pos :: "nat option"
  funcs :: "Func list option"

datatype error = AttributeError | TypeError

definition init :: Docsync where
  "init = \<lparr>start = None, end_pos = None, funcs = None\<rparr>"

subsection \<open>\<open>search\<close>\<close>

text \<open>
  The loop over the matches. It changes \<open>self.start\<close>, the list \<open>self.funcs\<close> (set to
  the empty list before the loop) and the loop variable \<open>match\<close> (\<open>None\<close> before the first
  round); these three are its state.
\<close>

fun search_loop ::
  "nat option \<Rightarrow> Func list \<Rightarrow> re_match option \<Rightarrow> re_match list
     \<Rightarrow> nat option \<times> Func list \<times> re_match option" where
  "search_loop start' funcs' m [] = (start', funcs', m)"
| "search_loop start' funcs' m (x # xs) =
     search_loop
       (case start' of None \<Rightarrow> Some (fst (m_span x)) | Some v \<Rightarrow> Some v)
       (funcs' @ [\<lparr>name = m_name x, span = m_span x, substring = m_group0 x\<rparr>])
       (Some x) xs"

text \<open>
  \<open>search\<close> returns the session as it leaves it and the number of matches. After the
  loop \<open>self.end\<close> is set from the last match, if there was one.
\<close>

definition search :: "Docsync \<Rightarrow> string \<Rightarrow> Docsync \<times> nat" where
  "search self text =
     (case search_loop (start self) [] None (finditer text) of
        (start', funcs', m) \<Rightarrow>
          (self\<lparr>start := start',
                end_pos := (case m of Some x \<Rightarrow> Some (snd (m_span x)) | None \<Rightarrow> end_pos self),
                funcs := Some funcs'\<rparr>,
           length funcs'))"

subsection \<open>\<open>_index_str\<close>\<close>

text \<open>
  The dictionary is a map from offsets to pairs of a line number and the line. The
  loop carries the dictionary, \<open>index_count\<close> and the line number of \<open>enumerate\<close>.
\<close>

fun index_loop ::
  "(nat \<rightharpoonup> nat \<times> string) \<Rightarrow> nat \<Rightarrow> nat \<Rightarrow> string list \<Rightarrow> (nat \<rightharpoonup> nat \<times> string)" where
  "index_loop index_dict index_count line_num [] = index_dict"
| "index_loop index_dict index_count line_num (line # lines) =
     index_loop (index_dict(index_count \<mapsto> (line_num, line)))
       (index_count + (length line + 1)) (Suc line_num) lines"

definition index_str :: "string \<Rightarrow> (nat \<rightharpoonup> nat \<times> string)" where
  "index_str text = index_loop Map.empty 0 0 (py_split CHR 0x0A text)"

subsection \<open>\<open>search_hdr\<close>\<close>

text \<open>
  \<open>line, _ = index_dict.get(key, (0, 0))\<close>: the line number registered for the key, and 0
  for a key the dictionary does not have. \<open>self.start\<close> may be \<open>None\<close>, which is no key of
  the dictionary.
\<close>

definition get_line :: "(nat \<rightharpoonup> nat \<times> string) \<Rightarrow> nat option \<Rightarrow> int" where
  "get_line index_dict key =
     (case key of
        None \<Rightarrow> 0
      | Some k \<Rightarrow> (case index_dict k of None \<Rightarrow> 0 | Some (line_num, line) \<Rightarrow> int line_num))"

text \<open>
  The loop over \<open>lines[::-1]\<close> with its \<open>else\<close> branch; \<open>line_num\<close> starts at
  \<open>len(lines) - 1\<close>.
\<close>

fun endif_loop :: "string list \<Rightarrow> int \<Rightarrow> int \<times> int" where
  "endif_loop [] line_num = (0, 0)"
| "endif_loop (line # lines) line_num =
     (if prefix ''#endif'' line then (line_num - 1, line_num - 1)
      else endif_loop lines (line_num - 1))"

text \<open>
  \<open>search_hdr\<close> returns the session as \<open>search\<close> leaves it and the line range, or the
  error of \<open>self.end+1\<close> when \<open>self.end\<close> is \<open>None\<close>.
\<close>

definition search_hdr :: "Docsync \<Rightarrow> string \<Rightarrow> Docsync \<times> (error + int \<times> int)" where
  "search_hdr self text =
     (case search self text of
        (self', num) \<Rightarrow>
          let index_dict = index_str text in
          if num \<noteq> 0 then
            (case end_pos self' of
               None \<Rightarrow> (self', Inl TypeError)
             | Some e \<Rightarrow>
                 (self', Inr (get_line index_dict (start self'),
                              get_line index_dict (Some (e + 1)))))
          else
            let lines = py_split CHR 0x0A text in
            (self', Inr (endif_loop (rev lines) (int (length lines) - 1))))"

subsection \<open>\<open>docexport\<close>\<close>

text \<open>The result is a list of lines or one string.\<close>

datatype rendered = Lines "string list" | Joined string

fun docexport_loop :: "string list \<Rightarrow> Func list \<Rightarrow> string list" where
  "docexport_loop out [] = out"
| "docexport_loop out (item # items) =
     docexport_loop (out @ [py_replace ''docimport'' ''docexport'' (substring item) @ '';'']) items"

text \<open>Reading \<open>self.funcs\<close> raises \<open>AttributeError\<close> when no scan has set it.\<close>

definition docexport :: "Docsync \<Rightarrow> string \<Rightarrow> error + rendered" where
  "docexport self output_type =
     (case funcs self of
        None \<Rightarrow> Inl AttributeError
      | Some fs \<Rightarrow>
          let out = docexport_loop [] fs;
              joined = py_join [CHR 0x0A, CHR 0x0A] out
          in if output_type = ''lines'' then Inr (Lines (py_split CHR 0x0A joined))
             else Inr (Joined (py_join [CHR 0x0A, CHR 0x0A] out)))"

section \<open>Vocabulary of the properties\<close>

text \<open>
  \<open>token_replaced old new s t\<close>: \<open>t\<close> is \<open>s\<close> with the token \<open>old\<close> replaced by \<open>new\<close>.
  The text \<open>s\<close> is a sequence of stretches free of the token with the token between
  them, and \<open>t\<close> is the same stretches with \<open>new\<close> between them.
\<close>

definition token_replaced :: "string \<Rightarrow> string \<Rightarrow> string \<Rightarrow> string \<Rightarrow> bool" where
  "token_replaced old new s t =
     (\<exists>gs. gs \<noteq> [] \<and> (\<forall>g \<in> set gs. \<not> sublist old g) \<and>
           s = py_join old gs \<and> t = py_join new gs)"

text \<open>
  \<open>line_offset lines i\<close>: the offset of the first character of line \<open>i\<close> in a text made
  of \<open>lines\<close>, every line before it counting with its length and one for its line break.
\<close>

definition line_offset :: "string list \<Rightarrow> nat \<Rightarrow> nat" where
  "line_offset lines i = sum_list (map (\<lambda>l. length l + 1) (take i lines))"

text \<open>
  A well-formed tagged block with the function name \<open>nm\<close>, in the words of the matching
  rule: a comment opener \<open>/\<close> with one or more \<open>*\<close>; white space; the tag in brackets,
  \<open>docimport\<close> or \<open>docexport\<close>, white space and a possibly empty identifier; white
  space; the token \<open>*//**\<close>; the documentation body, any text; a comment closer of one
  or more \<open>*\<close> and \<open>/\<close>, and a line break; the signature: a word (the return type),
  optional white space, an optional \<open>*\<close>, optional white space, the function name,
  \<open>(\<close>, any text, \<open>)\<close> and an optional \<open>;\<close>.
\<close>

definition tagged_block :: "string \<Rightarrow> string \<Rightarrow> bool" where
  "tagged_block b nm =
     (\<exists>stars ws1 tag ws2 ident ws3 body stars' rtype ws4 ptr ws5 args semi.
        b = ''/'' @ stars @ ws1 @ ''['' @ tag @ ws2 @ ident @ '']'' @ ws3 @ ''*//**'' @ body @
            stars' @ ''/'' @ [CHR 0x0A] @
            rtype @ ws4 @ ptr @ ws5 @ nm @ ''('' @ args @ '')'' @ semi
        \<and> stars \<noteq> [] \<and> list_all (\<lambda>c. c = CHR ''*'') stars
        \<and> ws1 \<noteq> [] \<and> list_all is_space ws1
        \<and> (tag = ''docimport'' \<or> tag = ''docexport'')
        \<and> ws2 \<noteq> [] \<and> list_all is_space ws2
        \<and> list_all is_word ident
        \<and> ws3 \<noteq> [] \<and> list_all is_space ws3
        \<and> stars' \<noteq> [] \<and> list_all (\<lambda>c. c = CHR ''*'') stars'
        \<and> rtype \<noteq> [] \<and> list_all is_word rtype
        \<and> list_all is_space ws4
        \<and> (ptr = [] \<or> ptr = ''*'')
        \<and> list_all is_space ws5
        \<and> nm \<noteq> [] \<and> list_all is_word nm
        \<and> (semi = [] \<or> semi = '';''))"

text \<open>
  \<open>block_starts_at text k\<close>: at offset \<open>k\<close> of the text begins a well-formed tagged block.
\<close>

definition block_starts_at :: "string \<Rightarrow> nat \<Rightarrow> bool" where
  "block_starts_at text k =
     (k \<le> length text \<and> (\<exists>b nm. tagged_block b nm \<and> prefix b (drop k text)))"

text \<open>
  Where the rule leaves a choice, it says which match is meant. A lazy repetition (the
  documentation body and the argument list, matched minimally) prefers the shorter
  piece, every other repetition the longer one, and the alternative of the tag its
  earlier word. Of two ways to split a text into the pieces of the rule, the one that is
  better at the first piece in which they differ is preferred.
\<close>

fun better :: "item \<Rightarrow> string \<Rightarrow> string \<Rightarrow> bool" where
  "better (Rep c q) x y = (if q = LazyStar then length x < length y else length y < length x)"
| "better (Named g c q) x y = (if q = LazyStar then length x < length y else length y < length x)"
| "better (Alt ws) x y =
     (length (takeWhile (\<lambda>w. w \<noteq> x) ws) < length (takeWhile (\<lambda>w. w \<noteq> y) ws))"

fun preferred :: "item list \<Rightarrow> string list \<Rightarrow> string list \<Rightarrow> bool" where
  "preferred (it # r) (x # xs) (y # ys) = (better it x y \<or> (x = y \<and> preferred r xs ys))"
| "preferred r xs ys = False"

text \<open>
  \<open>parses p s ps\<close>: the pieces \<open>ps\<close> fit the items of \<open>p\<close> and together are a beginning of
  \<open>s\<close>. \<open>rule_parse s ps\<close>: \<open>ps\<close> is the match of the rule at the beginning of \<open>s\<close>, that
  is, the split that is preferred to every other one.
\<close>

definition parses :: "item list \<Rightarrow> string \<Rightarrow> string list \<Rightarrow> bool" where
  "parses p s ps = (list_all2 piece_ok p ps \<and> prefix (concat ps) s)"

definition rule_parse :: "string \<Rightarrow> string list \<Rightarrow> bool" where
  "rule_parse s ps =
     (parses func_re s ps \<and> (\<forall>qs. parses func_re s qs \<longrightarrow> qs = ps \<or> preferred func_re ps qs))"

text \<open>
  The tagged blocks of a text, read off the text alone: \<open>blocks_from text pos bs\<close> lists,
  from offset \<open>pos\<close> on, the blocks with their start, their end and their function name.
  The first block begins at the leftmost offset at which a well-formed block begins and
  is the match of the rule there; the further blocks are those of the text from its
  end on. The list ends when no well-formed block begins any more.
\<close>

fun blocks_from :: "string \<Rightarrow> nat \<Rightarrow> (nat \<times> nat \<times> string) list \<Rightarrow> bool" where
  "blocks_from text pos [] = (\<forall>k. pos \<le> k \<longrightarrow> \<not> block_starts_at text k)"
| "blocks_from text pos ((s, e, nm) # bs) =
     (pos \<le> s \<and> block_starts_at text s
      \<and> (\<forall>k. pos \<le> k \<and> k < s \<longrightarrow> \<not> block_starts_at text k)
      \<and> (\<exists>ps. rule_parse (drop s text) ps \<and> e = s + length (concat ps)
                \<and> nm = group ''name'' func_re ps)
      \<and> blocks_from text e bs)"

definition tagged_blocks :: "string \<Rightarrow> (nat \<times> nat \<times> string) list \<Rightarrow> bool" where
  "tagged_blocks text bs = blocks_from text 0 bs"

text \<open>A source text with two tagged blocks and a header text with one, for the examples.\<close>

definition example_source :: string where
  "example_source = ''/* [docimport f] *//** F */
int f();
x
/* [docimport g] *//** docimport G */
char *g(a)''"

definition example_header :: string where
  "example_header = ''#ifndef A
#define A
/** [docexport foo] *//** Does foo.
 */
void foo(int x);

#endif
''"

text \<open>A header without tagged blocks, with two lines that begin with \<open>#endif\<close>.\<close>

definition example_plain_header :: string where
  "example_plain_header = ''#ifndef A'' @ [CHR 0x0A] @ ''#endif /* A */'' @ [CHR 0x0A] @
                          ''#endif'' @ [CHR 0x0A]"

text \<open>
  A text in which a block begins inside the documentation body of another one: the
  first comment is never closed, so its body runs up to the closer of the second.
\<close>

definition example_nested :: string where
  "example_nested = ''/* [docimport f] *//** /* [docimport g] *//** G */'' @ [CHR 0x0A] @ ''int g();''"

section \<open>Properties of the string operations\<close>

lemma py_split_not_Nil: "py_split c s \<noteq> []"
  by (induction s) (auto split: list.splits)

lemma py_join_Cons_Cons: "py_join sep ((x # l) # ls) = x # py_join sep (l # ls)"
  by (cases ls) simp_all

lemma py_join_Nil_Cons: "ls \<noteq> [] \<Longrightarrow> py_join sep ([] # ls) = sep @ py_join sep ls"
  by (cases ls) simp_all

lemma py_join_split: "py_join [c] (py_split c s) = s"
proof (induction s)
  case Nil
  then show ?case by simp
next
  case (Cons x xs)
  obtain l ls where sp: "py_split c xs = l # ls"
    using py_split_not_Nil [of c xs] by (cases "py_split c xs") auto
  with Cons show ?case
    by (auto simp: py_join_Cons_Cons py_join_Nil_Cons)
qed

lemma docexport_loop_map:
  "docexport_loop out fs =
     out @ map (\<lambda>r. py_replace ''docimport'' ''docexport'' (substring r) @ '';'') fs"
  by (induction fs arbitrary: out) auto

lemma py_replace_absent:
  "\<not> sublist old s \<Longrightarrow> py_replace old new s = s"
proof (induction old new s rule: py_replace.induct)
  case (1 old new s)
  from "1.prems" have ne: "old \<noteq> []" by auto
  show ?case
  proof (cases s)
    case Nil
    with ne show ?thesis by (simp add: py_replace.simps)
  next
    case (Cons x xs)
    from "1.prems" have np: "\<not> prefix old s" by (auto dest: prefix_imp_sublist)
    from "1.prems" Cons have "\<not> sublist old (tl s)" by (auto simp: sublist_Cons_right)
    with "1.IH"(2) ne np Cons have "py_replace old new (tl s) = tl s" by simp
    with ne np Cons show ?thesis
      by (subst py_replace.simps) simp
  qed
qed

lemma py_replace_token:
  "old \<noteq> [] \<Longrightarrow> token_replaced old new s (py_replace old new s)"
proof (induction old new s rule: py_replace.induct)
  case (1 old new s)
  note ne = "1.prems"
  show ?case
  proof (cases "s = []")
    case True
    with ne have "py_replace old new s = []" by (simp add: py_replace.simps)
    with True ne show ?thesis
      unfolding token_replaced_def by (intro exI [of _ "[[]]"]) auto
  next
    case False
    show ?thesis
    proof (cases "prefix old s")
      case True
      from "1.IH"(1) [OF ne False True] ne
      obtain gs where gs: "gs \<noteq> []" "\<forall>g \<in> set gs. \<not> sublist old g"
        "drop (length old) s = py_join old gs"
        "py_replace old new (drop (length old) s) = py_join new gs"
        unfolding token_replaced_def by auto
      from True have s: "s = old @ drop (length old) s" by (auto simp: prefix_def)
      from ne False True gs(4)
      have r: "py_replace old new s = new @ py_join new gs"
        by (subst py_replace.simps) simp
      from ne have "\<not> sublist old []" by simp
      with gs s r show ?thesis
        unfolding token_replaced_def
        by (intro exI [of _ "[] # gs"]) (auto simp: py_join_Nil_Cons)
    next
      case np: False
      from "1.IH"(2) [OF ne False np] ne
      obtain gs where gs: "gs \<noteq> []" "\<forall>g \<in> set gs. \<not> sublist old g"
        "tl s = py_join old gs" "py_replace old new (tl s) = py_join new gs"
        unfolding token_replaced_def by auto
      from gs(1) obtain g rest where gr: "gs = g # rest" by (cases gs) auto
      from False have s: "s = hd s # tl s" by simp
      from ne False np gs(4)
      have r: "py_replace old new s = hd s # py_join new gs"
        by (subst py_replace.simps) simp
      have "\<not> sublist old (hd s # g)"
      proof
        assume "sublist old (hd s # g)"
        with gs(2) gr have "prefix old (hd s # g)" by (auto simp: sublist_Cons_right)
        moreover have "prefix (hd s # g) s"
          using s gs(3) gr by (cases rest) (auto simp: prefix_def intro: exI)
        ultimately show False using np by (auto intro: prefix_order.trans)
      qed
      with gs gr s r show ?thesis
        unfolding token_replaced_def
        by (intro exI [of _ "(hd s # g) # rest"]) (auto simp: py_join_Cons_Cons)
    qed
  qed
qed

section \<open>The line index: \<open>_index_str\<close>\<close>

lemma line_offset_0: "line_offset ls 0 = 0"
  by (simp add: line_offset_def)

lemma line_offset_Suc_Cons: "line_offset (l # ls) (Suc i) = length l + 1 + line_offset ls i"
  by (simp add: line_offset_def)

lemma line_offset_step:
  "i < length ls \<Longrightarrow> line_offset ls (Suc i) = line_offset ls i + length (ls ! i) + 1"
  by (simp add: line_offset_def take_Suc_conv_app_nth)

lemma line_offset_strict:
  "i < j \<Longrightarrow> j \<le> length ls \<Longrightarrow> line_offset ls i < line_offset ls j"
proof (induction j)
  case 0
  then show ?case by simp
next
  case (Suc j)
  then have "line_offset ls i \<le> line_offset ls j"
    by (cases "i = j") auto
  with Suc.prems line_offset_step [of j ls] show ?case by simp
qed

lemma index_loop_other:
  "(\<forall>i<length ls. k \<noteq> cnt + line_offset ls i) \<Longrightarrow> index_loop d cnt num ls k = d k"
proof (induction ls arbitrary: d cnt num)
  case Nil
  then show ?case by simp
next
  case (Cons l ls)
  from Cons.prems have k0: "k \<noteq> cnt"
    by (auto simp: line_offset_0 dest: spec [of _ 0])
  have "\<forall>i<length ls. k \<noteq> cnt + (length l + 1) + line_offset ls i"
  proof (intro allI impI)
    fix i assume "i < length ls"
    with Cons.prems have "k \<noteq> cnt + line_offset (l # ls) (Suc i)" by auto
    then show "k \<noteq> cnt + (length l + 1) + line_offset ls i"
      by (simp add: line_offset_Suc_Cons)
  qed
  from Cons.IH [OF this] k0 show ?case by simp
qed

lemma index_loop_line:
  "i < length ls \<Longrightarrow> index_loop d cnt num ls (cnt + line_offset ls i) = Some (num + i, ls ! i)"
proof (induction ls arbitrary: d cnt num i)
  case Nil
  then show ?case by simp
next
  case (Cons l ls)
  show ?case
  proof (cases i)
    case 0
    have "index_loop (d(cnt \<mapsto> (num, l))) (cnt + (length l + 1)) (Suc num) ls cnt
          = (d(cnt \<mapsto> (num, l))) cnt"
      by (rule index_loop_other) simp
    with 0 show ?thesis by (simp add: line_offset_0)
  next
    case (Suc j)
    with Cons.prems have j: "j < length ls" by simp
    have k: "cnt + line_offset (l # ls) i = cnt + (length l + 1) + line_offset ls j"
      using Suc by (simp add: line_offset_Suc_Cons)
    have "index_loop d cnt num (l # ls) (cnt + line_offset (l # ls) i)
          = index_loop (d(cnt \<mapsto> (num, l))) (cnt + (length l + 1)) (Suc num) ls
              (cnt + (length l + 1) + line_offset ls j)"
      unfolding k by simp
    also have "\<dots> = Some (Suc num + j, ls ! j)"
      by (rule Cons.IH [OF j])
    finally show ?thesis using Suc by simp
  qed
qed

lemma index_str_line:
  "i < length (py_split CHR 0x0A text) \<Longrightarrow>
   index_str text (line_offset (py_split CHR 0x0A text) i) = Some (i, py_split CHR 0x0A text ! i)"
  using index_loop_line [of i "py_split CHR 0x0A text" Map.empty 0 0]
  by (simp add: index_str_def)

lemma index_str_dom:
  "dom (index_str text) =
   line_offset (py_split CHR 0x0A text) ` {..<length (py_split CHR 0x0A text)}"
proof (intro set_eqI iffI)
  fix k assume k: "k \<in> dom (index_str text)"
  show "k \<in> line_offset (py_split CHR 0x0A text) ` {..<length (py_split CHR 0x0A text)}"
  proof (rule ccontr)
    assume "k \<notin> line_offset (py_split CHR 0x0A text) ` {..<length (py_split CHR 0x0A text)}"
    then have "\<forall>i<length (py_split CHR 0x0A text). k \<noteq> 0 + line_offset (py_split CHR 0x0A text) i"
      by auto
    from index_loop_other [OF this, of Map.empty 0] have "index_str text k = None"
      by (simp add: index_str_def)
    with k show False by auto
  qed
next
  fix k assume "k \<in> line_offset (py_split CHR 0x0A text) ` {..<length (py_split CHR 0x0A text)}"
  then show "k \<in> dom (index_str text)"
    by (auto simp: index_str_line)
qed

lemma py_join_line_at:
  "i < length ls \<Longrightarrow>
   take (length (ls ! i)) (drop (line_offset ls i) (py_join [c] ls)) = ls ! i"
proof (induction ls arbitrary: i)
  case Nil
  then show ?case by simp
next
  case (Cons l ls)
  show ?case
  proof (cases i)
    case 0
    then show ?thesis by (cases ls) (simp_all add: line_offset_0)
  next
    case (Suc j)
    with Cons.prems have j: "j < length ls" by simp
    then obtain y ys where "ls = y # ys" by (cases ls) auto
    with Cons.IH [OF j] Suc show ?thesis
      by (simp add: line_offset_Suc_Cons)
  qed
qed

lemma length_py_join:
  "ls \<noteq> [] \<Longrightarrow> Suc (length (py_join [c] ls)) = line_offset ls (length ls)"
proof (induction ls)
  case Nil
  then show ?case by simp
next
  case (Cons l ls)
  then show ?case
    by (cases ls) (simp_all add: line_offset_def)
qed

lemma length_py_split: "length (py_split c s) = Suc (length (filter ((=) c) s))"
  by (induction s) (auto split: list.splits)

lemma last_py_split: "last (py_split c s) = [] \<longleftrightarrow> s = [] \<or> last s = c"
proof (induction s)
  case Nil
  then show ?case by simp
next
  case (Cons x xs)
  obtain l ls where sp: "py_split c xs = l # ls"
    using py_split_not_Nil [of c xs] by (cases "py_split c xs") auto
  show ?case
  proof (cases "x = c")
    case True
    with Cons sp show ?thesis by auto
  next
    case False
    show ?thesis
    proof (cases ls)
      case Nil
      with sp length_py_split [of c xs] have "c \<notin> set xs"
        by (auto simp: filter_empty_conv)
      then have "xs \<noteq> [] \<Longrightarrow> last xs \<noteq> c"
        using last_in_set [of xs] by auto
      with False sp Nil show ?thesis by auto
    next
      case (Cons y ys)
      with False sp Cons.IH show ?thesis by auto
    qed
  qed
qed

lemma line_offset_mono:
  "i \<le> j \<Longrightarrow> j \<le> length ls \<Longrightarrow> line_offset ls i \<le> line_offset ls j"
  using line_offset_strict [of i j ls] by (cases "i = j") auto

lemma length_text_offset:
  "length text = line_offset (py_split CHR 0x0A text) (length (py_split CHR 0x0A text) - 1)
                 + length (last (py_split CHR 0x0A text))"
proof -
  let ?ls = "py_split CHR 0x0A text"
  have ne: "?ls \<noteq> []" by (rule py_split_not_Nil)
  then have n: "length ?ls - 1 < length ?ls" by (cases ?ls) auto
  from length_py_join [OF ne, of "CHR 0x0A"]
  have "Suc (length text) = line_offset ?ls (length ?ls)" by (simp add: py_join_split)
  also from ne have "\<dots> = line_offset ?ls (Suc (length ?ls - 1))" by (cases ?ls) auto
  also from line_offset_step [OF n]
  have "\<dots> = line_offset ?ls (length ?ls - 1) + length (?ls ! (length ?ls - 1)) + 1" .
  finally show ?thesis using ne by (simp add: last_conv_nth)
qed

lemma index_str_at_length:
  "index_str text (length text) \<noteq> None \<longleftrightarrow> text = [] \<or> last text = CHR 0x0A"
proof -
  let ?ls = "py_split CHR 0x0A text"
  have ne: "?ls \<noteq> []" by (rule py_split_not_Nil)
  then have n: "length ?ls - 1 < length ?ls" by (cases ?ls) auto
  have "index_str text (length text) \<noteq> None \<longleftrightarrow> last ?ls = []"
  proof
    assume "index_str text (length text) \<noteq> None"
    then have "length text \<in> dom (index_str text)" by auto
    then obtain i where i: "i < length ?ls" "length text = line_offset ?ls i"
      by (auto simp: index_str_dom)
    then have "line_offset ?ls i \<le> line_offset ?ls (length ?ls - 1)"
      by (intro line_offset_mono) auto
    with i(2) length_text_offset [of "text"] have "length (last ?ls) = 0" by arith
    then show "last ?ls = []" by simp
  next
    assume "last ?ls = []"
    with length_text_offset [of "text"]
    have "length text = line_offset ?ls (length ?ls - 1)" by simp
    with index_str_line [OF n] show "index_str text (length text) \<noteq> None" by simp
  qed
  then show ?thesis by (simp add: last_py_split)
qed

lemma index_str_beyond:
  assumes "length text < k"
  shows "index_str text k = None"
proof (rule ccontr)
  let ?ls = "py_split CHR 0x0A text"
  assume "index_str text k \<noteq> None"
  then have "k \<in> dom (index_str text)" by auto
  then obtain i where i: "i < length ?ls" "k = line_offset ?ls i"
    by (auto simp: index_str_dom)
  then have "line_offset ?ls i \<le> line_offset ?ls (length ?ls - 1)"
    by (intro line_offset_mono) auto
  with i(2) length_text_offset [of "text"] assms show False by simp
qed

text \<open>
  Claim C5, as amended. The index of a text has exactly one entry for every line of the
  text. Its key is the offset of the first character of the line, and its value is the
  number of the line, counted from zero, with the line without its line break. The
  first line begins at offset 0 and every further line one past the end of the line
  before it. The offset one past the last character of the text (its length) is a key
  exactly when the text is empty or ends with a line break: it is then the empty last
  line. No offset larger than the length of the text is a key.
\<close>

theorem index_str_lines:
  assumes "lines = py_split CHR 0x0A text"
  shows "(\<forall>i<length lines.
            index_str text (line_offset lines i) = Some (i, lines ! i) \<and>
            take (length (lines ! i)) (drop (line_offset lines i) text) = lines ! i)
         \<and> dom (index_str text) = line_offset lines ` {..<length lines}
         \<and> line_offset lines 0 = 0
         \<and> (\<forall>i. Suc i < length lines \<longrightarrow>
               line_offset lines (Suc i) = line_offset lines i + length (lines ! i) + 1)
         \<and> (index_str text (length text) \<noteq> None \<longleftrightarrow> text = [] \<or> last text = CHR 0x0A)
         \<and> (\<forall>k>length text. index_str text k = None)"
proof -
  have a: "\<forall>i<length lines.
            index_str text (line_offset lines i) = Some (i, lines ! i) \<and>
            take (length (lines ! i)) (drop (line_offset lines i) text) = lines ! i"
    using py_join_line_at [of _ lines "CHR 0x0A"]
    unfolding assms by (simp add: index_str_line py_join_split)
  have b: "dom (index_str text) = line_offset lines ` {..<length lines}"
    unfolding assms by (rule index_str_dom)
  have c: "\<forall>i. Suc i < length lines \<longrightarrow>
               line_offset lines (Suc i) = line_offset lines i + length (lines ! i) + 1"
    by (simp add: line_offset_step)
  have d: "index_str text (length text) \<noteq> None \<longleftrightarrow> text = [] \<or> last text = CHR 0x0A"
    by (rule index_str_at_length)
  have e: "\<forall>k>length text. index_str text k = None"
    by (simp add: index_str_beyond)
  have f: "line_offset lines 0 = 0"
    by (rule line_offset_0)
  from a b c d e f show ?thesis by blast
qed

text \<open>The index of the example header, which ends with a line break.\<close>

theorem index_str_lines_witness:
  "index_str example_header 0 = Some (0, ''#ifndef A'')
   \<and> index_str example_header 20 = Some (2, ''/** [docexport foo] *//** Does foo.'')
   \<and> take 35 (drop 20 example_header) = ''/** [docexport foo] *//** Does foo.''
   \<and> index_str example_header 77 = Some (5, [])
   \<and> index_str example_header (length example_header) = Some (7, [])
   \<and> index_str example_header (length example_header + 1) = None"
proof -
  define lines where "lines = py_split CHR 0x0A example_header"
  have l: "lines = [''#ifndef A'', ''#define A'', ''/** [docexport foo] *//** Does foo.'',
                    '' */'', ''void foo(int x);'', [], ''#endif'', []]"
    unfolding lines_def by code_simp
  have o: "line_offset lines 0 = 0" "line_offset lines 2 = 20" "line_offset lines 5 = 77"
    "line_offset lines 7 = length example_header"
    unfolding l by code_simp+
  from index_str_lines [OF lines_def] have
    t: "\<forall>i<length lines.
            index_str example_header (line_offset lines i) = Some (i, lines ! i) \<and>
            take (length (lines ! i)) (drop (line_offset lines i) example_header) = lines ! i"
    and b: "\<forall>k>length example_header. index_str example_header k = None"
    by blast+
  have n: "length lines = 8" unfolding l by simp
  have v: "lines ! 0 = ''#ifndef A''" "lines ! 2 = ''/** [docexport foo] *//** Does foo.''"
    "lines ! 5 = []" "lines ! 7 = []"
    unfolding l by simp_all
  have w: "length ''/** [docexport foo] *//** Does foo.'' = 35" by simp
  from t n have "index_str example_header (line_offset lines 0) = Some (0, lines ! 0)"
    "index_str example_header (line_offset lines 2) = Some (2, lines ! 2)"
    "take (length (lines ! 2)) (drop (line_offset lines 2) example_header) = lines ! 2"
    "index_str example_header (line_offset lines 5) = Some (5, lines ! 5)"
    "index_str example_header (line_offset lines 7) = Some (7, lines ! 7)"
    by simp_all
  note r = this [unfolded o v w]
  from b have "index_str example_header (length example_header + 1) = None"
    by simp
  with r show ?thesis by blast
qed

text \<open>
  The claim as given fails: in the text \<open>a\<close>, which does not end with a line break,
  neither the offset one past the last character nor the one after it is a key.
\<close>

theorem index_str_end_unregistered:
  "index_str ''a'' (length ''a'') = None \<and> index_str ''a'' (length ''a'' + 1) = None"
  by (simp add: index_str_def)

section \<open>Scanning: \<open>search\<close>\<close>

text \<open>What the loop of \<open>search\<close> and \<open>search\<close> itself leave in the session.\<close>

lemma search_loop_eq:
  "search_loop st fs m ms =
     ((case st of
         None \<Rightarrow> (case ms of [] \<Rightarrow> None | x # xs \<Rightarrow> Some (fst (m_span x)))
       | Some v \<Rightarrow> Some v),
      fs @ map (\<lambda>x. \<lparr>name = m_name x, span = m_span x, substring = m_group0 x\<rparr>) ms,
      if ms = [] then m else Some (last ms))"
proof (induction ms arbitrary: st fs m)
  case Nil
  then show ?case by (simp split: option.splits)
next
  case (Cons x xs)
  show ?case
    by (simp add: Cons.IH split: option.splits list.splits)
qed

lemma search_eq:
  "search self text =
     (self\<lparr>start := (case start self of
                        None \<Rightarrow> (case finditer text of [] \<Rightarrow> None
                                 | x # xs \<Rightarrow> Some (fst (m_span x)))
                      | Some v \<Rightarrow> Some v),
           end_pos := (if finditer text = [] then end_pos self
                       else Some (snd (m_span (last (finditer text))))),
           funcs := Some (map (\<lambda>x. \<lparr>name = m_name x, span = m_span x,
                                       substring = m_group0 x\<rparr>) (finditer text))\<rparr>,
      length (finditer text))"
  by (simp add: search_def search_loop_eq Let_def)

lemma search_count: "snd (search self text) = length (finditer text)"
  by (simp add: search_eq)

text \<open>
  The matching rule in its words and the pattern of the source describe the same
  blocks.
\<close>

lemma piece_One: "piece_ok (Rep (Lit a) One) p \<longleftrightarrow> p = [a]"
  by (cases p) (auto simp: list_all_iff)

lemma piece_Opt: "piece_ok (Rep (Lit a) Opt) p \<longleftrightarrow> p = [] \<or> p = [a]"
  by (cases p) (auto simp: list_all_iff)

lemma piece_Plus: "piece_ok (Rep c Plus) p \<longleftrightarrow> p \<noteq> [] \<and> list_all (in_cls c) p"
  by (cases p) auto

lemma piece_Star: "piece_ok (Rep c Star) p \<longleftrightarrow> list_all (in_cls c) p"
  by simp

lemma piece_Lazy: "piece_ok (Rep Dot LazyStar) p \<longleftrightarrow> True"
  by (simp add: list_all_iff)

lemma piece_Alt2: "piece_ok (Alt [u, v]) p \<longleftrightarrow> p = u \<or> p = v"
  by auto

lemma piece_Named: "piece_ok (Named g c Plus) p \<longleftrightarrow> p \<noteq> [] \<and> list_all (in_cls c) p"
  by (cases p) auto

lemma in_cls_funs: "in_cls (Lit a) = (\<lambda>c. c = a)" "in_cls Space = is_space" "in_cls Word = is_word"
  by (auto simp: fun_eq_iff)

lemma tagged_block_pieces:
  assumes "tagged_block b nm"
  shows "func_re_block b nm"
proof -
  from assms obtain stars ws1 tag ws2 ident ws3 body stars' rtype ws4 ptr ws5 args semi where
    b: "b = ''/'' @ stars @ ws1 @ ''['' @ tag @ ws2 @ ident @ '']'' @ ws3 @ ''*//**'' @ body @
            stars' @ ''/'' @ [CHR 0x0A] @
            rtype @ ws4 @ ptr @ ws5 @ nm @ ''('' @ args @ '')'' @ semi"
    and c: "stars \<noteq> []" "list_all (\<lambda>c. c = CHR ''*'') stars"
        "ws1 \<noteq> []" "list_all is_space ws1"
        "tag = ''docimport'' \<or> tag = ''docexport''"
        "ws2 \<noteq> []" "list_all is_space ws2"
        "list_all is_word ident"
        "ws3 \<noteq> []" "list_all is_space ws3"
        "stars' \<noteq> []" "list_all (\<lambda>c. c = CHR ''*'') stars'"
        "rtype \<noteq> []" "list_all is_word rtype"
        "list_all is_space ws4"
        "ptr = [] \<or> ptr = ''*''"
        "list_all is_space ws5"
        "nm \<noteq> []" "list_all is_word nm"
        "semi = [] \<or> semi = '';''"
    unfolding tagged_block_def by blast
  let ?ps = "[''/'', stars, ws1, ''['', tag, ws2, ident, '']'', ws3,
              ''*'', ''/'', ''/'', ''*'', ''*'', body, stars', ''/'', [CHR 0x0A],
              rtype, ws4, ptr, ws5, nm, ''('', args, '')'', semi]"
  from c have "list_all2 piece_ok func_re ?ps"
    unfolding func_re_def
    by (simp add: piece_One piece_Opt piece_Plus piece_Star piece_Lazy piece_Named piece_Alt2
               in_cls_funs
             del: piece_ok.simps)
  moreover from b have "concat ?ps = b" by simp
  moreover have "group ''name'' func_re ?ps = nm"
    unfolding func_re_def by simp
  ultimately show ?thesis unfolding func_re_block_def by blast
qed

lemma pieces_tagged_block:
  assumes "func_re_block b nm"
  shows "tagged_block b nm"
proof -
  from assms obtain ps where ps: "list_all2 piece_ok func_re ps" "concat ps = b"
    "group ''name'' func_re ps = nm"
    unfolding func_re_block_def by blast
  from ps(1) obtain p1 stars ws1 p4 tag ws2 ident p8 ws3 p10 p11 p12 p13 p14 body stars' p17 p18
     rtype ws4 ptr ws5 nm' p24 args p26 semi where
    l: "ps = [p1, stars, ws1, p4, tag, ws2, ident, p8, ws3, p10, p11, p12, p13, p14, body, stars',
              p17, p18, rtype, ws4, ptr, ws5, nm', p24, args, p26, semi]"
    and q: "piece_ok (Rep (Lit CHR ''/'') One) p1" "piece_ok (Rep (Lit CHR ''*'') Plus) stars"
     "piece_ok (Rep Space Plus) ws1" "piece_ok (Rep (Lit CHR ''['') One) p4"
     "piece_ok (Alt [''docimport'', ''docexport'']) tag"
     "piece_ok (Rep Space Plus) ws2" "piece_ok (Rep Word Star) ident"
     "piece_ok (Rep (Lit CHR '']'') One) p8" "piece_ok (Rep Space Plus) ws3"
     "piece_ok (Rep (Lit CHR ''*'') One) p10" "piece_ok (Rep (Lit CHR ''/'') One) p11"
     "piece_ok (Rep (Lit CHR ''/'') One) p12"
     "piece_ok (Rep (Lit CHR ''*'') One) p13" "piece_ok (Rep (Lit CHR ''*'') One) p14"
     "piece_ok (Rep (Lit CHR ''*'') Plus) stars'" "piece_ok (Rep (Lit CHR ''/'') One) p17"
     "piece_ok (Rep (Lit CHR 0x0A) One) p18"
     "piece_ok (Rep Word Plus) rtype" "piece_ok (Rep Space Star) ws4"
     "piece_ok (Rep (Lit CHR ''*'') Opt) ptr" "piece_ok (Rep Space Star) ws5"
     "piece_ok (Named ''name'' Word Plus) nm'" "piece_ok (Rep (Lit CHR ''('') One) p24"
     "piece_ok (Rep (Lit CHR '')'') One) p26" "piece_ok (Rep (Lit CHR '';'') Opt) semi"
    unfolding func_re_def list_all2_Cons1 by (auto simp del: piece_ok.simps)
  from ps(3) l have nm: "nm' = nm" unfolding func_re_def by simp
  note r = q [unfolded piece_One piece_Opt piece_Plus piece_Star piece_Named piece_Alt2
                in_cls_funs nm]
  from ps(2) l r nm
  have b: "b = ''/'' @ stars @ ws1 @ ''['' @ tag @ ws2 @ ident @ '']'' @ ws3 @ ''*//**'' @ body @
            stars' @ ''/'' @ [CHR 0x0A] @
            rtype @ ws4 @ ptr @ ws5 @ nm @ ''('' @ args @ '')'' @ semi"
    by simp
  from b r show ?thesis
    unfolding tagged_block_def by blast
qed

lemma tagged_block_iff: "tagged_block b nm \<longleftrightarrow> func_re_block b nm"
  using tagged_block_pieces pieces_tagged_block by blast

text \<open>
  The engine finds a match at the beginning of a text exactly when the text begins
  with a well-formed tagged block, and what it matches is such a block.
\<close>

lemma bt_tagged_block:
  "bt func_re s = Some ps \<Longrightarrow> tagged_block (concat ps) (group ''name'' func_re ps)"
  unfolding tagged_block_iff func_re_block_def using bt_sound [of func_re s ps] by blast

lemma bt_iff_block:
  "bt func_re s \<noteq> None \<longleftrightarrow> (\<exists>b nm. tagged_block b nm \<and> prefix b s)"
proof
  assume "bt func_re s \<noteq> None"
  then obtain ps where ps: "bt func_re s = Some ps" by auto
  from bt_tagged_block [OF ps] bt_sound [OF ps]
  show "\<exists>b nm. tagged_block b nm \<and> prefix b s" by blast
next
  assume "\<exists>b nm. tagged_block b nm \<and> prefix b s"
  then obtain ps where "list_all2 piece_ok func_re ps" "prefix (concat ps) s"
    unfolding tagged_block_iff func_re_block_def by blast
  then show "bt func_re s \<noteq> None" by (rule bt_complete)
qed

text \<open>
  The matches of \<open>finditer\<close>: each lies in the text at its span, which is not empty;
  they follow each other without overlap; and every offset at which a block begins
  lies in the span of one of them.
\<close>

lemma finditer_from_spans:
  "x \<in> set (finditer_from pos s) \<Longrightarrow>
     pos \<le> fst (m_span x) \<and> fst (m_span x) < snd (m_span x) \<and>
     snd (m_span x) \<le> pos + length s \<and>
     m_group0 x = take (snd (m_span x) - fst (m_span x)) (drop (fst (m_span x) - pos) s) \<and>
     tagged_block (m_group0 x) (m_name x)"
proof (induction pos s rule: finditer_from.induct)
  case (1 pos s)
  show ?case
  proof (cases "bt func_re s")
    case None
    show ?thesis
    proof (cases "s = []")
      case True
      with None "1.prems" show ?thesis by (simp add: finditer_from.simps)
    next
      case False
      with None "1.prems" have "x \<in> set (finditer_from (Suc pos) (tl s))"
        by (simp add: finditer_from.simps)
      from "1.IH"(1) [OF None False this]
      have ih: "Suc pos \<le> fst (m_span x)" "fst (m_span x) < snd (m_span x)"
        "snd (m_span x) \<le> Suc pos + length (tl s)"
        "m_group0 x = take (snd (m_span x) - fst (m_span x)) (drop (fst (m_span x) - Suc pos) (tl s))"
        "tagged_block (m_group0 x) (m_name x)"
        by auto
      from ih(1) have "drop (fst (m_span x) - Suc pos) (tl s) = drop (fst (m_span x) - pos) s"
        by (simp add: drop_Suc [symmetric] Suc_diff_Suc del: drop_Suc)
      with ih False show ?thesis by (cases s) auto
    qed
  next
    case (Some ps)
    define n where "n = length (concat ps)"
    from func_re_nonempty [OF Some] have n: "0 < n" "n \<le> length s"
      unfolding n_def by blast+
    from bt_sound [OF Some] have pre: "prefix (concat ps) s" by simp
    then have tk: "take n s = concat ps"
      unfolding n_def by (auto simp: prefix_def)
    from Some "1.prems"
    have "x = \<lparr>m_span = (pos, pos + n), m_group0 = concat ps,
                m_name = group ''name'' func_re ps\<rparr>
          \<or> x \<in> set (finditer_from (pos + n) (drop n s))"
      unfolding n_def by (simp add: finditer_from.simps)
    then show ?thesis
    proof
      assume "x = \<lparr>m_span = (pos, pos + n), m_group0 = concat ps,
                m_name = group ''name'' func_re ps\<rparr>"
      with n tk bt_tagged_block [OF Some] show ?thesis by simp
    next
      assume "x \<in> set (finditer_from (pos + n) (drop n s))"
      from "1.IH"(2) [OF Some this [unfolded n_def]]
      have ih: "pos + n \<le> fst (m_span x)" "fst (m_span x) < snd (m_span x)"
        "snd (m_span x) \<le> pos + n + length (drop n s)"
        "m_group0 x = take (snd (m_span x) - fst (m_span x))
                        (drop (fst (m_span x) - (pos + n)) (drop n s))"
        "tagged_block (m_group0 x) (m_name x)"
        unfolding n_def by auto
      from ih(1) have "fst (m_span x) - (pos + n) + n = fst (m_span x) - pos" by simp
      then have "drop (fst (m_span x) - (pos + n)) (drop n s) = drop (fst (m_span x) - pos) s"
        by simp
      with ih n show ?thesis by auto
    qed
  qed
qed

lemma finditer_from_sorted:
  "sorted_wrt (\<lambda>x y. snd (m_span x) \<le> fst (m_span y)) (finditer_from pos s)"
proof (induction pos s rule: finditer_from.induct)
  case (1 pos s)
  show ?case
  proof (cases "bt func_re s")
    case None
    show ?thesis
    proof (cases "s = []")
      case True
      with None finditer_from.simps [of pos s] show ?thesis by simp
    next
      case False
      from "1.IH"(1) [OF None False] None False show ?thesis
        by (simp add: finditer_from.simps [of pos s])
    qed
  next
    case (Some ps)
    from "1.IH"(2) [OF Some] finditer_from_spans [of _ "pos + length (concat ps)" "drop (length (concat ps)) s"]
    show ?thesis
      using Some by (auto simp: finditer_from.simps [of pos s])
  qed
qed

lemma finditer_from_covers:
  "k \<le> length s \<Longrightarrow> bt func_re (drop k s) \<noteq> None \<Longrightarrow>
   \<exists>x \<in> set (finditer_from pos s). fst (m_span x) \<le> pos + k \<and> pos + k < snd (m_span x)"
proof (induction pos s arbitrary: k rule: finditer_from.induct)
  case (1 pos s)
  show ?case
  proof (cases "bt func_re s")
    case None
    with "1.prems" have k: "0 < k" by (cases k) auto
    with "1.prems" have ne: "s \<noteq> []" by auto
    from k have "drop (k - 1) (tl s) = drop k s"
      by (cases k) (simp_all add: drop_Suc)
    with "1.prems" k ne have "k - 1 \<le> length (tl s)" "bt func_re (drop (k - 1) (tl s)) \<noteq> None"
      by auto
    from "1.IH"(1) [OF None ne this] k
    have "\<exists>x \<in> set (finditer_from (Suc pos) (tl s)). fst (m_span x) \<le> pos + k \<and> pos + k < snd (m_span x)"
      by simp
    with None ne show ?thesis by (simp add: finditer_from.simps [of pos s])
  next
    case (Some ps)
    define n where "n = length (concat ps)"
    from func_re_nonempty [OF Some] have n: "0 < n" "n \<le> length s"
      unfolding n_def by blast+
    have unf: "finditer_from pos s =
        \<lparr>m_span = (pos, pos + n), m_group0 = concat ps, m_name = group ''name'' func_re ps\<rparr>
        # finditer_from (pos + n) (drop n s)"
      using Some unfolding n_def by (simp add: finditer_from.simps [of pos s])
    show ?thesis
    proof (cases "k < n")
      case True
      then show ?thesis unfolding unf by simp
    next
      case False
      then have "drop (k - n) (drop n s) = drop k s" by simp
      with "1.prems" False n have "k - n \<le> length (drop n s)"
        "bt func_re (drop (k - n) (drop n s)) \<noteq> None"
        by auto
      from "1.IH"(2) [OF Some this [unfolded n_def]] False
      have "\<exists>x \<in> set (finditer_from (pos + n) (drop n s)).
              fst (m_span x) \<le> pos + k \<and> pos + k < snd (m_span x)"
        unfolding n_def by simp
      then show ?thesis unfolding unf by auto
    qed
  qed
qed

text \<open>
  What \<open>search\<close> records, in terms of the matches of \<open>finditer\<close>: every record has a span
  that is not empty and lies in the text, its substring is the text of that span and a
  well-formed tagged block with the name of the record, the records follow each other
  without overlap, and every offset at which a well-formed block begins lies in the span
  of a record.
\<close>

lemma search_finditer_records:
  assumes "length (finditer text) = N"
  shows "snd (search self text) = N
     \<and> (\<exists>fs. funcs (fst (search self text)) = Some fs \<and> length fs = N
          \<and> (\<forall>i<N. fst (span (fs ! i)) < snd (span (fs ! i))
                  \<and> snd (span (fs ! i)) \<le> length text
                  \<and> substring (fs ! i) =
                      take (snd (span (fs ! i)) - fst (span (fs ! i)))
                        (drop (fst (span (fs ! i))) text)
                  \<and> tagged_block (substring (fs ! i)) (name (fs ! i)))
          \<and> (\<forall>i j. i < j \<and> j < N \<longrightarrow> snd (span (fs ! i)) \<le> fst (span (fs ! j)))
          \<and> (\<forall>k. block_starts_at text k \<longrightarrow>
                 (\<exists>i<N. fst (span (fs ! i)) \<le> k \<and> k < snd (span (fs ! i)))))"
proof -
  let ?ms = "finditer text"
  let ?fs = "map (\<lambda>x. \<lparr>name = m_name x, span = m_span x, substring = m_group0 x\<rparr>) ?ms"
  have f: "funcs (fst (search self text)) = Some ?fs" and c: "snd (search self text) = N"
    using assms by (simp_all add: search_eq)
  have l: "length ?fs = N" using assms by simp
  have a: "\<forall>i<N. fst (span (?fs ! i)) < snd (span (?fs ! i))
                  \<and> snd (span (?fs ! i)) \<le> length text
                  \<and> substring (?fs ! i) =
                      take (snd (span (?fs ! i)) - fst (span (?fs ! i)))
                        (drop (fst (span (?fs ! i))) text)
                  \<and> tagged_block (substring (?fs ! i)) (name (?fs ! i))"
  proof (intro allI impI)
    fix i assume i: "i < N"
    define x where "x = ?ms ! i"
    from i assms have "x \<in> set (finditer_from 0 text)"
      by (simp add: finditer_def x_def)
    note sp = finditer_from_spans [OF this]
    from sp have s1: "fst (m_span x) < snd (m_span x)" and s2: "snd (m_span x) \<le> length text"
      by simp_all
    from sp have s3: "m_group0 x = take (snd (m_span x) - fst (m_span x)) (drop (fst (m_span x)) text)"
      by simp
    from sp have s4: "tagged_block (m_group0 x) (m_name x)"
      by blast
    from i assms have fx: "?fs ! i = \<lparr>name = m_name x, span = m_span x, substring = m_group0 x\<rparr>"
      by (simp add: x_def)
    from s1 s2 s3 s4
    show "fst (span (?fs ! i)) < snd (span (?fs ! i))
                  \<and> snd (span (?fs ! i)) \<le> length text
                  \<and> substring (?fs ! i) =
                      take (snd (span (?fs ! i)) - fst (span (?fs ! i)))
                        (drop (fst (span (?fs ! i))) text)
                  \<and> tagged_block (substring (?fs ! i)) (name (?fs ! i))"
      unfolding fx Func.select_convs by blast
  qed
  have b: "\<forall>i j. i < j \<and> j < N \<longrightarrow> snd (span (?fs ! i)) \<le> fst (span (?fs ! j))"
  proof (intro allI impI)
    fix i j assume ij: "i < j \<and> j < N"
    from finditer_from_sorted [of 0 "text"]
    have "sorted_wrt (\<lambda>x y. snd (m_span x) \<le> fst (m_span y)) ?ms"
      by (simp add: finditer_def)
    with ij assms have "snd (m_span (?ms ! i)) \<le> fst (m_span (?ms ! j))"
      by (simp add: sorted_wrt_iff_nth_less)
    with ij assms show "snd (span (?fs ! i)) \<le> fst (span (?fs ! j))"
      by simp
  qed
  have d: "\<forall>k. block_starts_at text k \<longrightarrow>
                 (\<exists>i<N. fst (span (?fs ! i)) \<le> k \<and> k < snd (span (?fs ! i)))"
  proof (intro allI impI)
    fix k assume "block_starts_at text k"
    then have "k \<le> length text" "\<exists>b nm. tagged_block b nm \<and> prefix b (drop k text)"
      unfolding block_starts_at_def by blast+
    then have "k \<le> length text" "bt func_re (drop k text) \<noteq> None"
      unfolding bt_iff_block by blast+
    from finditer_from_covers [OF this, of 0]
    obtain x where "x \<in> set ?ms" "fst (m_span x) \<le> k" "k < snd (m_span x)"
      by (auto simp: finditer_def)
    then obtain i where "i < length ?ms" "?ms ! i = x"
      by (auto simp: in_set_conv_nth)
    with \<open>fst (m_span x) \<le> k\<close> \<open>k < snd (m_span x)\<close> assms
    show "\<exists>i<N. fst (span (?fs ! i)) \<le> k \<and> k < snd (span (?fs ! i))"
      by (intro exI [of _ i]) auto
  qed
  from f l a b d have "\<exists>fs. funcs (fst (search self text)) = Some fs \<and> length fs = N
          \<and> (\<forall>i<N. fst (span (fs ! i)) < snd (span (fs ! i))
                  \<and> snd (span (fs ! i)) \<le> length text
                  \<and> substring (fs ! i) =
                      take (snd (span (fs ! i)) - fst (span (fs ! i)))
                        (drop (fst (span (fs ! i))) text)
                  \<and> tagged_block (substring (fs ! i)) (name (fs ! i)))
          \<and> (\<forall>i j. i < j \<and> j < N \<longrightarrow> snd (span (fs ! i)) \<le> fst (span (fs ! j)))
          \<and> (\<forall>k. block_starts_at text k \<longrightarrow>
                 (\<exists>i<N. fst (span (fs ! i)) \<le> k \<and> k < snd (span (fs ! i))))"
    by (intro exI [of _ ?fs]) blast
  with c show ?thesis by blast
qed

text \<open>
  The engine takes the preferred split: a number of repetitions tried earlier is better,
  and so is an alternative tried earlier.
\<close>

lemma first_some_first:
  "first_some f xs = Some r \<Longrightarrow>
   \<exists>pre x post. xs = pre @ x # post \<and> f x = Some r \<and> (\<forall>y \<in> set pre. f y = None)"
proof (induction xs)
  case Nil
  then show ?case by simp
next
  case (Cons a xs)
  show ?case
  proof (cases "f a")
    case None
    with Cons obtain pre x post where "xs = pre @ x # post" "f x = Some r" "\<forall>y \<in> set pre. f y = None"
      by auto
    with None show ?thesis
      by (intro exI [of _ "a # pre"] exI [of _ x] exI [of _ post]) auto
  next
    case (Some v)
    with Cons.prems show ?thesis
      by (intro exI [of _ "[]"] exI [of _ a] exI [of _ xs]) auto
  qed
qed

lemma counts_sorted:
  "sorted_wrt (\<lambda>a b. if q = LazyStar then a < b else b < a) (counts q m)"
  by (cases q) (auto simp: sorted_wrt_rev sorted_wrt_upt simp del: upt_Suc)

lemma better_irrefl: "\<not> better it x x"
  by (cases it) auto

lemma better_asym: "better it x y \<Longrightarrow> \<not> better it y x"
  by (cases it) (auto split: if_splits)

lemma preferred_asym: "preferred p xs ys \<Longrightarrow> \<not> preferred p ys xs"
  by (induction p xs ys rule: preferred.induct) (auto simp: better_irrefl dest: better_asym)

lemma bt_rep_preferred:
  assumes bt: "first_some (\<lambda>n. map_option ((#) (take n s)) (bt r (drop n s)))
                 (counts q (length (takeWhile (in_cls c) s))) = Some ps"
    and ih: "\<And>n qs' ps'. bt r (drop n s) = Some ps' \<Longrightarrow> parses r (drop n s) qs' \<Longrightarrow>
               qs' = ps' \<or> preferred r ps' qs'"
    and y: "list_all (in_cls c) y" "len_ok q (length y)"
    and qs: "list_all2 piece_ok r qs'" "prefix (concat (y # qs')) s"
    and bet: "\<And>a b. better it a b = (if q = LazyStar then length a < length b else length b < length a)"
  shows "y # qs' = ps \<or> preferred (it # r) ps (y # qs')"
proof -
  let ?f = "\<lambda>n. map_option ((#) (take n s)) (bt r (drop n s))"
  let ?m = "length (takeWhile (in_cls c) s)"
  from first_some_first [OF bt] obtain pre n0 post where
    sp: "counts q ?m = pre @ n0 # post" and f0: "?f n0 = Some ps"
    and none: "\<forall>n \<in> set pre. ?f n = None"
    by blast
  from f0 obtain ps' where ps': "bt r (drop n0 s) = Some ps'" "ps = take n0 s # ps'" by auto
  from qs(2) have py: "prefix y s" and pq: "prefix (concat qs') (drop (length y) s)"
    by (auto simp: prefix_def)
  from py have ty: "take (length y) s = y" by (auto simp: prefix_def)
  from y(1) py have "length y \<le> ?m" by (rule run_covers)
  from counts_complete [OF y(2) this] have mem: "length y \<in> set (counts q ?m)" .
  from bt_complete [OF qs(1) pq] have "?f (length y) \<noteq> None" by auto
  with none have "length y \<notin> set pre" by auto
  with mem sp have "length y = n0 \<or> length y \<in> set post" by auto
  then show ?thesis
  proof
    assume e: "length y = n0"
    with pq qs(1) have "parses r (drop n0 s) qs'" by (simp add: parses_def)
    from ih [OF ps'(1) this] e ty ps'(2) show ?thesis by auto
  next
    assume "length y \<in> set post"
    with counts_sorted [of q ?m] sp
    have "if q = LazyStar then n0 < length y else length y < n0"
      by (auto simp: sorted_wrt_append)
    moreover from sp have "n0 \<in> set (counts q ?m)" by simp
    from counts_len_ok [OF this] have "n0 \<le> ?m" by simp
    then have "n0 \<le> length s" using length_takeWhile_le [of "in_cls c" s] by linarith
    then have "length (take n0 s) = n0" by simp
    ultimately have "better it (take n0 s) y" by (simp add: bet)
    with ps'(2) show ?thesis by simp
  qed
qed

lemma takeWhile_neq_pre:
  "y \<notin> set pre \<Longrightarrow>
   length (takeWhile (\<lambda>w. w \<noteq> y) (pre @ x # post)) =
     length pre + (if x = y then 0 else Suc (length (takeWhile (\<lambda>w. w \<noteq> y) post)))"
  by (induction pre) auto

lemma takeWhile_neq_le: "length (takeWhile (\<lambda>w. w \<noteq> x) (pre @ x # post)) \<le> length pre"
  by (induction pre) auto

lemma bt_alt_preferred:
  assumes bt: "first_some (\<lambda>w. if prefix w s then map_option ((#) w) (bt r (drop (length w) s))
                                  else None) ws = Some ps"
    and ih: "\<And>(w::string) qs' ps'. prefix w s \<Longrightarrow> bt r (drop (length w) s) = Some ps' \<Longrightarrow>
               parses r (drop (length w) s) qs' \<Longrightarrow> qs' = ps' \<or> preferred r ps' qs'"
    and y: "y \<in> set ws"
    and qs: "list_all2 piece_ok r qs'" "prefix (concat (y # qs')) s"
  shows "y # qs' = ps \<or> preferred (Alt ws # r) ps (y # qs')"
proof -
  let ?f = "\<lambda>w. if prefix w s then map_option ((#) w) (bt r (drop (length w) s)) else None"
  from first_some_first [OF bt] obtain pre w0 post where
    sp: "ws = pre @ w0 # post" and f0: "?f w0 = Some ps"
    and none: "\<forall>w \<in> set pre. ?f w = None"
    by blast
  from f0 obtain ps' where ps': "bt r (drop (length w0) s) = Some ps'" "ps = w0 # ps'"
    and pw: "prefix w0 s"
    by (auto split: if_splits)
  from qs(2) have py: "prefix y s" and pq: "prefix (concat qs') (drop (length y) s)"
    by (auto simp: prefix_def)
  from bt_complete [OF qs(1) pq] py have "?f y \<noteq> None" by auto
  with none have ny: "y \<notin> set pre" by auto
  show ?thesis
  proof (cases "y = w0")
    case True
    with pq qs(1) have "parses r (drop (length w0) s) qs'" by (simp add: parses_def)
    from ih [OF pw ps'(1) this] True ps'(2) show ?thesis by auto
  next
    case False
    from takeWhile_neq_pre [OF ny, of w0 post] False
    have "length pre < length (takeWhile (\<lambda>w. w \<noteq> y) ws)"
      unfolding sp by simp
    with takeWhile_neq_le [of w0 pre post]
    have "better (Alt ws) w0 y" unfolding sp by simp
    with ps'(2) show ?thesis by simp
  qed
qed

lemma bt_preferred:
  "bt p s = Some ps \<Longrightarrow> parses p s qs \<Longrightarrow> qs = ps \<or> preferred p ps qs"
proof (induction p s arbitrary: ps qs rule: bt.induct)
  case (1 s)
  then show ?case by (simp add: parses_def)
next
  case (2 c q r s)
  from "2.prems"(2) obtain y qs' where qs: "qs = y # qs'" and y: "piece_ok (Rep c q) y"
    and r: "list_all2 piece_ok r qs'"
    by (auto simp: parses_def list_all2_Cons1)
  from "2.prems"(2) qs have pre: "prefix (concat (y # qs')) s" by (simp add: parses_def)
  have "y # qs' = ps \<or> preferred (Rep c q # r) ps (y # qs')"
  proof (rule bt_rep_preferred [where c = c and q = q])
    from "2.prems"(1) show "first_some (\<lambda>n. map_option ((#) (take n s)) (bt r (drop n s)))
                 (counts q (length (takeWhile (in_cls c) s))) = Some ps" by simp
  next
    fix n qs' ps'
    assume "bt r (drop n s) = Some ps'" "parses r (drop n s) qs'"
    then show "qs' = ps' \<or> preferred r ps' qs'" by (rule "2.IH")
  qed (use y r pre in auto)
  with qs show ?case by simp
next
  case (3 g c q r s)
  from "3.prems"(2) obtain y qs' where qs: "qs = y # qs'" and y: "piece_ok (Named g c q) y"
    and r: "list_all2 piece_ok r qs'"
    by (auto simp: parses_def list_all2_Cons1)
  from "3.prems"(2) qs have pre: "prefix (concat (y # qs')) s" by (simp add: parses_def)
  have "y # qs' = ps \<or> preferred (Named g c q # r) ps (y # qs')"
  proof (rule bt_rep_preferred [where c = c and q = q])
    from "3.prems"(1) show "first_some (\<lambda>n. map_option ((#) (take n s)) (bt r (drop n s)))
                 (counts q (length (takeWhile (in_cls c) s))) = Some ps" by simp
  next
    fix n qs' ps'
    assume "bt r (drop n s) = Some ps'" "parses r (drop n s) qs'"
    then show "qs' = ps' \<or> preferred r ps' qs'" by (rule "3.IH")
  qed (use y r pre in auto)
  with qs show ?case by simp
next
  case (4 ws r s)
  from "4.prems"(2) obtain y qs' where qs: "qs = y # qs'" and y: "y \<in> set ws"
    and r: "list_all2 piece_ok r qs'"
    by (auto simp: parses_def list_all2_Cons1)
  from "4.prems"(2) qs have pre: "prefix (concat (y # qs')) s" by (simp add: parses_def)
  have "y # qs' = ps \<or> preferred (Alt ws # r) ps (y # qs')"
  proof (rule bt_alt_preferred)
    from "4.prems"(1) show "first_some (\<lambda>w. if prefix w s
        then map_option ((#) w) (bt r (drop (length w) s)) else None) ws = Some ps" by simp
  next
    fix w :: string and qs' ps'
    assume "prefix w s" "bt r (drop (length w) s) = Some ps'" "parses r (drop (length w) s) qs'"
    then show "qs' = ps' \<or> preferred r ps' qs'" by (rule "4.IH")
  qed (use y r pre in auto)
  with qs show ?case by simp
qed

text \<open>
  Hence the match of the rule at the beginning of a text exists exactly when the engine
  finds a match there, and is what the engine finds.
\<close>

lemma bt_rule_parse: "bt func_re s = Some ps \<Longrightarrow> rule_parse s ps"
  unfolding rule_parse_def using bt_sound [of func_re s ps] bt_preferred [of func_re s ps]
  by (auto simp: parses_def)

lemma rule_parse_unique: "rule_parse s ps \<Longrightarrow> rule_parse s qs \<Longrightarrow> ps = qs"
  unfolding rule_parse_def using preferred_asym [of func_re ps qs] by blast

lemma rule_parse_bt: "rule_parse s ps \<Longrightarrow> bt func_re s = Some ps"
proof -
  assume r: "rule_parse s ps"
  then have "list_all2 piece_ok func_re ps" "prefix (concat ps) s"
    by (auto simp: rule_parse_def parses_def)
  from bt_complete [OF this] obtain qs where qs: "bt func_re s = Some qs" by auto
  from rule_parse_unique [OF r bt_rule_parse [OF qs]] qs show ?thesis by simp
qed

lemma block_starts_at_bt:
  "block_starts_at text k \<longleftrightarrow> k \<le> length text \<and> bt func_re (drop k text) \<noteq> None"
  unfolding block_starts_at_def bt_iff_block by blast

text \<open>
  The matches of \<open>finditer\<close> are the tagged blocks of the text, so every text has exactly
  one list of tagged blocks.
\<close>

lemma blocks_from_finditer:
  "s = drop pos text \<Longrightarrow> pos \<le> length text \<Longrightarrow> blocks_from text pos bs \<Longrightarrow>
   finditer_from pos s =
     map (\<lambda>(b, e, nm). \<lparr>m_span = (b, e), m_group0 = take (e - b) (drop b text), m_name = nm\<rparr>) bs"
proof (induction pos s arbitrary: bs rule: finditer_from.induct)
  case (1 pos s)
  note s = "1.prems"(1) and le = "1.prems"(2) and bl = "1.prems"(3)
  show ?case
  proof (cases "bt func_re s")
    case None
    then have nb: "\<not> block_starts_at text pos"
      using s by (simp add: block_starts_at_bt)
    show ?thesis
    proof (cases "s = []")
      case True
      with s le have pl: "pos = length text" by simp
      have "bs = []"
      proof (cases bs)
        case Nil
        then show ?thesis .
      next
        case (Cons x xs)
        obtain b e nm where x: "x = (b, e, nm)" by (cases x) auto
        with bl Cons have "pos \<le> b" "block_starts_at text b" by auto
        with pl nb show ?thesis by (auto simp: block_starts_at_def)
      qed
      with None True finditer_from.simps [of pos s] show ?thesis by simp
    next
      case False
      with s le have lt: "pos < length text" by simp
      have tl: "tl s = drop (Suc pos) text"
        using s by (simp add: drop_Suc tl_drop)
      have "blocks_from text (Suc pos) bs"
      proof (cases bs)
        case Nil
        with bl show ?thesis by auto
      next
        case (Cons x xs)
        obtain b e nm where x: "x = (b, e, nm)" by (cases x) auto
        with bl Cons nb have "pos \<noteq> b" by auto
        with bl Cons x show ?thesis by auto
      qed
      from "1.IH"(1) [OF None False tl _ this] lt
      have "finditer_from (Suc pos) (tl s) =
        map (\<lambda>(b, e, nm). \<lparr>m_span = (b, e), m_group0 = take (e - b) (drop b text), m_name = nm\<rparr>) bs"
        by simp
      with None False show ?thesis by (simp add: finditer_from.simps [of pos s])
    qed
  next
    case (Some ps)
    define n where "n = length (concat ps)"
    from func_re_nonempty [OF Some] have n: "0 < n" "n \<le> length s"
      unfolding n_def by blast+
    from Some s le have st: "block_starts_at text pos"
      by (simp add: block_starts_at_bt)
    from bt_sound [OF Some] have "prefix (concat ps) s" by simp
    then have tk: "take n (drop pos text) = concat ps"
      unfolding n_def s by (auto simp: prefix_def)
    have unf: "finditer_from pos s =
        \<lparr>m_span = (pos, pos + n), m_group0 = concat ps, m_name = group ''name'' func_re ps\<rparr>
        # finditer_from (pos + n) (drop n s)"
      using Some unfolding n_def by (simp add: finditer_from.simps [of pos s])
    from bl st obtain b e nm xs where bs: "bs = (b, e, nm) # xs"
      by (cases bs) auto
    from bl bs st have b: "b = pos"
      by (cases "pos < b") auto
    from bl bs b obtain qs where qs: "rule_parse (drop pos text) qs"
      "e = pos + length (concat qs)" "nm = group ''name'' func_re qs"
      and rest: "blocks_from text e xs"
      by auto
    from rule_parse_bt [OF qs(1)] Some s have "qs = ps" by simp
    with qs have e: "e = pos + n" and nm: "nm = group ''name'' func_re ps"
      by (simp_all add: n_def)
    have d: "drop n s = drop (pos + n) text" using s by (simp add: add.commute)
    from n s le have le': "pos + n \<le> length text" by simp
    from "1.IH"(2) [OF Some d [unfolded n_def] le' [unfolded n_def] rest [unfolded e n_def]]
    have "finditer_from (pos + n) (drop n s) =
        map (\<lambda>(b, e, nm). \<lparr>m_span = (b, e), m_group0 = take (e - b) (drop b text), m_name = nm\<rparr>) xs"
      unfolding n_def .
    with bs b e nm tk show ?thesis
      unfolding unf by simp
  qed
qed

lemma finditer_blocks:
  "s = drop pos text \<Longrightarrow> pos \<le> length text \<Longrightarrow>
   blocks_from text pos
     (map (\<lambda>x. (fst (m_span x), snd (m_span x), m_name x)) (finditer_from pos s))"
proof (induction pos s rule: finditer_from.induct)
  case (1 pos s)
  note s = "1.prems"(1) and le = "1.prems"(2)
  show ?case
  proof (cases "bt func_re s")
    case None
    then have nb: "\<not> block_starts_at text pos"
      using s by (simp add: block_starts_at_bt)
    show ?thesis
    proof (cases "s = []")
      case True
      with s le have pl: "pos = length text" by simp
      have "\<forall>k. pos \<le> k \<longrightarrow> \<not> block_starts_at text k"
      proof (intro allI impI)
        fix k assume "pos \<le> k"
        with pl nb show "\<not> block_starts_at text k"
          by (cases "k = pos") (auto simp: block_starts_at_def)
      qed
      with None True finditer_from.simps [of pos s] show ?thesis by simp
    next
      case False
      with s le have lt: "pos < length text" by simp
      have tl: "tl s = drop (Suc pos) text"
        using s by (simp add: drop_Suc tl_drop)
      from "1.IH"(1) [OF None False tl] lt
      have ih: "blocks_from text (Suc pos)
         (map (\<lambda>x. (fst (m_span x), snd (m_span x), m_name x)) (finditer_from (Suc pos) (tl s)))"
        by simp
      have "blocks_from text pos
         (map (\<lambda>x. (fst (m_span x), snd (m_span x), m_name x)) (finditer_from (Suc pos) (tl s)))"
      proof (cases "finditer_from (Suc pos) (tl s)")
        case Nil
        with ih have "\<forall>k. Suc pos \<le> k \<longrightarrow> \<not> block_starts_at text k" by simp
        with nb have "\<forall>k. pos \<le> k \<longrightarrow> \<not> block_starts_at text k"
          by (metis Suc_leI le_neq_implies_less)
        with Nil show ?thesis by simp
      next
        case (Cons x xs)
        with ih have a: "Suc pos \<le> fst (m_span x)"
          "\<forall>k. Suc pos \<le> k \<and> k < fst (m_span x) \<longrightarrow> \<not> block_starts_at text k"
          by auto
        with nb have "\<forall>k. pos \<le> k \<and> k < fst (m_span x) \<longrightarrow> \<not> block_starts_at text k"
          by (metis Suc_leI le_neq_implies_less)
        with Cons ih a(1) show ?thesis by auto
      qed
      with None False show ?thesis by (simp add: finditer_from.simps [of pos s])
    qed
  next
    case (Some ps)
    define n where "n = length (concat ps)"
    from func_re_nonempty [OF Some] have n: "0 < n" "n \<le> length s"
      unfolding n_def by blast+
    from Some s le have st: "block_starts_at text pos"
      by (simp add: block_starts_at_bt)
    have d: "drop n s = drop (pos + n) text" using s by (simp add: add.commute)
    from n s le have le': "pos + n \<le> length text" by simp
    from "1.IH"(2) [OF Some d [unfolded n_def] le' [unfolded n_def]]
    have ih: "blocks_from text (pos + n)
       (map (\<lambda>x. (fst (m_span x), snd (m_span x), m_name x)) (finditer_from (pos + n) (drop n s)))"
      unfolding n_def .
    from bt_rule_parse [OF Some] s have "rule_parse (drop pos text) ps" by simp
    with st ih Some show ?thesis
      by (auto simp: finditer_from.simps [of pos s] n_def)
  qed
qed

lemma tagged_blocks_finditer:
  "tagged_blocks text bs \<Longrightarrow>
   finditer text =
     map (\<lambda>(b, e, nm). \<lparr>m_span = (b, e), m_group0 = take (e - b) (drop b text), m_name = nm\<rparr>) bs"
  unfolding tagged_blocks_def finditer_def
  using blocks_from_finditer [of "text" 0 "text" bs] by simp

lemma finditer_tagged_blocks:
  "tagged_blocks text (map (\<lambda>x. (fst (m_span x), snd (m_span x), m_name x)) (finditer text))"
  unfolding tagged_blocks_def finditer_def
  using finditer_blocks [of "text" 0 "text"] by simp

lemma tagged_blocks_unique:
  assumes "tagged_blocks text bs" and "tagged_blocks text bs'"
  shows "bs = bs'"
proof -
  let ?g = "\<lambda>(b, e, nm). \<lparr>m_span = (b, e), m_group0 = take (e - b) (drop b text), m_name = nm\<rparr>"
  have "inj ?g" by (auto simp: inj_on_def)
  moreover from tagged_blocks_finditer [OF assms(1)] tagged_blocks_finditer [OF assms(2)]
  have "map ?g bs = map ?g bs'" by simp
  ultimately show ?thesis by (simp add: inj_map_eq_map)
qed

text \<open>
  Claim C2. The well-formed tagged blocks of a text are read off the text: from the
  left, each at the leftmost offset at which a block begins, ending where the rule with
  its lazy body ends it, the next one not before that end (\<open>tagged_blocks\<close>). When these
  are the \<open>N\<close> blocks \<open>bs\<close>, \<open>search\<close> returns \<open>N\<close> and records exactly these blocks in their
  order: each record has the function name and the span of its block and the text of the
  span as its substring. Every span has \<open>span[0] < span[1]\<close> and lies in the text, every
  substring is a well-formed tagged block with the name of the record, a record ends
  before the next one begins, and every offset at which a well-formed block begins lies
  in the span of a record.
\<close>

theorem search_records:
  assumes "tagged_blocks text bs" and "length bs = N"
  shows "snd (search self text) = N
     \<and> funcs (fst (search self text)) =
         Some (map (\<lambda>(b, e, nm). \<lparr>name = nm, span = (b, e),
                                    substring = take (e - b) (drop b text)\<rparr>) bs)
     \<and> (\<exists>fs. funcs (fst (search self text)) = Some fs \<and> length fs = N
          \<and> (\<forall>i<N. fst (span (fs ! i)) < snd (span (fs ! i))
                  \<and> snd (span (fs ! i)) \<le> length text
                  \<and> substring (fs ! i) =
                      take (snd (span (fs ! i)) - fst (span (fs ! i)))
                        (drop (fst (span (fs ! i))) text)
                  \<and> tagged_block (substring (fs ! i)) (name (fs ! i)))
          \<and> (\<forall>i j. i < j \<and> j < N \<longrightarrow> snd (span (fs ! i)) \<le> fst (span (fs ! j)))
          \<and> (\<forall>k. block_starts_at text k \<longrightarrow>
                 (\<exists>i<N. fst (span (fs ! i)) \<le> k \<and> k < snd (span (fs ! i)))))"
proof -
  note fi = tagged_blocks_finditer [OF assms(1)]
  from fi assms(2) have n: "length (finditer text) = N" by simp
  have f: "funcs (fst (search self text)) =
         Some (map (\<lambda>(b, e, nm). \<lparr>name = nm, span = (b, e),
                                    substring = take (e - b) (drop b text)\<rparr>) bs)"
    unfolding search_eq fi by (simp add: comp_def case_prod_beta)
  from search_finditer_records [OF n, of self] f show ?thesis by blast
qed

text \<open>
  The example source has the two blocks \<open>f\<close> and \<open>g\<close>. The whole example source is a
  well-formed block as well, with a body that runs over the first signature, but it is
  not the block of the text: the body is lazy. In the nested example well-formed blocks
  begin at the offsets 0 and 23, and the text has one tagged block, from 0 to its end,
  with the name \<open>g\<close>.
\<close>

theorem search_records_witness:
  "tagged_blocks example_source [(0, 36, ''f''), (39, 87, ''g'')]
   \<and> snd (search init example_source) = 2
   \<and> funcs (fst (search init example_source)) =
       Some [\<lparr>name = ''f'', span = (0, 36),
              substring = ''/* [docimport f] *//** F */'' @ [CHR 0x0A] @ ''int f();''\<rparr>,
             \<lparr>name = ''g'', span = (39, 87),
              substring = ''/* [docimport g] *//** docimport G */'' @ [CHR 0x0A] @ ''char *g(a)''\<rparr>]
   \<and> tagged_block example_source ''g''
   \<and> \<not> tagged_blocks example_source [(0, 87, ''g'')]
   \<and> block_starts_at example_nested 0 \<and> block_starts_at example_nested 23
   \<and> tagged_blocks example_nested [(0, 59, ''g'')]
   \<and> snd (search init example_nested) = 1
   \<and> funcs (fst (search init example_nested)) =
       Some [\<lparr>name = ''g'', span = (0, 59), substring = example_nested\<rparr>]"
proof -
  let ?B = "[(0, 36, ''f''), (39, 87, ''g'')] :: (nat \<times> nat \<times> string) list"
  let ?C = "[(0, 59, ''g'')] :: (nat \<times> nat \<times> string) list"
  have e: "map (\<lambda>x. (fst (m_span x), snd (m_span x), m_name x)) (finditer example_source) = ?B"
    by code_simp
  from finditer_tagged_blocks [of example_source]
  have h: "tagged_blocks example_source ?B" unfolding e .
  have l: "length ?B = 2" by simp
  have v: "map (\<lambda>(b, e, nm). \<lparr>name = nm, span = (b, e),
                                 substring = take (e - b) (drop b example_source)\<rparr>) ?B =
       [\<lparr>name = ''f'', span = (0, 36),
              substring = ''/* [docimport f] *//** F */'' @ [CHR 0x0A] @ ''int f();''\<rparr>,
             \<lparr>name = ''g'', span = (39, 87),
              substring = ''/* [docimport g] *//** docimport G */'' @ [CHR 0x0A] @ ''char *g(a)''\<rparr>]"
    by code_simp
  from search_records [OF h l, of init]
  have n: "snd (search init example_source) = 2"
    and f: "funcs (fst (search init example_source)) =
       Some (map (\<lambda>(b, e, nm). \<lparr>name = nm, span = (b, e),
                                 substring = take (e - b) (drop b example_source)\<rparr>) ?B)"
    by blast+
  note f' = f [unfolded v]
  have e2: "map (\<lambda>x. (fst (m_span x), snd (m_span x), m_name x)) (finditer example_nested) = ?C"
    by code_simp
  from finditer_tagged_blocks [of example_nested]
  have h2: "tagged_blocks example_nested ?C" unfolding e2 .
  have l2: "length ?C = 1" by simp
  have v2: "map (\<lambda>(b, e, nm). \<lparr>name = nm, span = (b, e),
                                 substring = take (e - b) (drop b example_nested)\<rparr>) ?C =
       [\<lparr>name = ''g'', span = (0, 59), substring = example_nested\<rparr>]"
    by code_simp
  from search_records [OF h2 l2, of init]
  have n2: "snd (search init example_nested) = 1"
    and f2: "funcs (fst (search init example_nested)) =
       Some (map (\<lambda>(b, e, nm). \<lparr>name = nm, span = (b, e),
                                 substring = take (e - b) (drop b example_nested)\<rparr>) ?C)"
    by blast+
  note f2' = f2 [unfolded v2]
  have b0: "0 \<le> length example_nested \<and> bt func_re (drop 0 example_nested) \<noteq> None"
    by code_simp
  have b23: "23 \<le> length example_nested \<and> bt func_re (drop 23 example_nested) \<noteq> None"
    by code_simp
  from b0 b23 have s: "block_starts_at example_nested 0" "block_starts_at example_nested 23"
    unfolding block_starts_at_bt by blast+
  let ?ps = "[''/'', ''*'', '' '', ''['', ''docimport'', '' '', ''f'', '']'', '' '',
              ''*'', ''/'', ''/'', ''*'', ''*'',
              '' F */'' @ [CHR 0x0A] @ ''int f();'' @ [CHR 0x0A] @ ''x'' @ [CHR 0x0A] @
                ''/* [docimport g] *//** docimport G '',
              ''*'', ''/'', [CHR 0x0A], ''char'', '' '', ''*'', [], ''g'', ''('', ''a'', '')'', []]"
  have "list_all2 piece_ok func_re ?ps \<and> concat ?ps = example_source
        \<and> group ''name'' func_re ?ps = ''g''"
    by code_simp
  then have "func_re_block example_source ''g''"
    unfolding func_re_block_def by blast
  then have g: "tagged_block example_source ''g''"
    by (simp add: tagged_block_iff)
  have u: "\<not> tagged_blocks example_source [(0, 87, ''g'')]"
    using tagged_blocks_unique [OF h] by auto
  from h n f' g u s h2 n2 f2' show ?thesis by blast
qed

text \<open>
  \<open>search\<close> sets \<open>start\<close> only while it is \<open>None\<close>, and nothing ever sets it back. On a
  fresh session the first scan with matches therefore records the start of its first
  record.
\<close>

lemma search_fresh_start:
  assumes "search init text = (self', num)" and "num \<noteq> 0"
  shows "\<exists>f fs. funcs self' = Some (f # fs) \<and> start self' = Some (fst (span f))"
proof -
  from assms have "finditer text \<noteq> []" by (auto simp: search_eq)
  then obtain x xs where "finditer text = x # xs" by (cases "finditer text") auto
  with assms(1) show ?thesis by (auto simp: search_eq init_def)
qed

text \<open>
  Claim C6. After any sequence of scans on one session with a result that is not empty,
  \<open>start\<close> should be the start of the first record of the last scan. A second scan on
  the same session keeps the old value instead: after a scan of the example source
  behind one blank and a scan of the example source itself, \<open>start\<close> is still 1, while
  the first record of the second scan begins at offset 0.
\<close>

theorem rescan_keeps_first_start:
  "start (fst (search (fst (search init ('' '' @ example_source))) example_source)) = Some 1
   \<and> map_option (map span)
        (funcs (fst (search (fst (search init ('' '' @ example_source))) example_source)))
      = Some [(0, 36), (39, 87)]"
  by code_simp

section \<open>Locating the insertion range: \<open>search_hdr\<close>\<close>

text \<open>
  \<open>search_hdr\<close> never raises: when \<open>search\<close> has counted a match it has also set
  \<open>self.end\<close>.
\<close>

lemma search_hdr_total: "\<exists>r. snd (search_hdr self text) = Inr r"
  by (simp add: search_hdr_def search_eq Let_def)

text \<open>The loop over the reversed lines stops at the last line that begins with \<open>#endif\<close>.\<close>

lemma endif_loop_none:
  "(\<forall>l \<in> set ls. \<not> prefix ''#endif'' l) \<Longrightarrow> endif_loop ls n = (0, 0)"
  by (induction ls arbitrary: n) auto

lemma endif_loop_last:
  "L < length ls \<Longrightarrow> prefix ''#endif'' (ls ! L) \<Longrightarrow>
   (\<forall>j. L < j \<and> j < length ls \<longrightarrow> \<not> prefix ''#endif'' (ls ! j)) \<Longrightarrow>
   endif_loop (rev ls) (int (length ls) - 1) = (int L - 1, int L - 1)"
proof (induction ls rule: rev_induct)
  case Nil
  then show ?case by simp
next
  case (snoc x xs)
  show ?case
  proof (cases "L = length xs")
    case True
    with snoc.prems show ?thesis by simp
  next
    case False
    with snoc.prems have L: "L < length xs" by simp
    from snoc.prems(3) L have nx: "\<not> prefix ''#endif'' x"
      by (auto dest: spec [of _ "length xs"])
    from snoc.prems(2) L have p: "prefix ''#endif'' (xs ! L)"
      by (simp add: nth_append)
    have "\<forall>j. L < j \<and> j < length xs \<longrightarrow> \<not> prefix ''#endif'' (xs ! j)"
    proof (intro allI impI)
      fix j assume j: "L < j \<and> j < length xs"
      with snoc.prems(3) have "\<not> prefix ''#endif'' ((xs @ [x]) ! j)" by simp
      with j show "\<not> prefix ''#endif'' (xs ! j)" by (simp add: nth_append)
    qed
    from snoc.IH [OF L p this] nx show ?thesis by simp
  qed
qed

text \<open>
  Claim C1. For a header text in which the matcher finds at least one tagged block,
  \<open>search_hdr\<close> returns the pair of the line number that the line index has for the
  recorded start offset and the line number it has for the recorded end offset plus
  one; each of the two is 0 when its offset is not a key of the index. The recorded end
  is the end of the last match. The recorded start is the start of the first match on a
  session that had none recorded, and otherwise the one recorded before.
\<close>

theorem search_hdr_tagged:
  assumes "finditer text \<noteq> []" and "search self text = (self', num)"
  shows "\<exists>s e. start self' = Some s \<and> end_pos self' = Some e \<and>
           search_hdr self text =
             (self', Inr ((case index_str text s of None \<Rightarrow> 0
                            | Some (line_num, line) \<Rightarrow> int line_num),
                          (case index_str text (e + 1) of None \<Rightarrow> 0
                            | Some (line_num, line) \<Rightarrow> int line_num)))
           \<and> e = snd (m_span (last (finditer text)))
           \<and> s = (case start self of None \<Rightarrow> fst (m_span (hd (finditer text))) | Some v \<Rightarrow> v)"
proof -
  from assms(1) obtain x xs where ms: "finditer text = x # xs"
    by (cases "finditer text") auto
  from assms(2) have self': "self' = fst (search self text)" and "num = length (finditer text)"
    by (simp_all add: search_eq)
  with ms have n: "snd (search self text) \<noteq> 0" by (simp add: search_eq)
  from self' ms have e: "end_pos self' = Some (snd (m_span (last (finditer text))))"
    by (simp add: search_eq)
  from self' ms
  have s: "start self' = Some (case start self of None \<Rightarrow> fst (m_span (hd (finditer text)))
                                | Some v \<Rightarrow> v)"
    by (simp add: search_eq split: option.splits)
  from assms(2) n e s show ?thesis
    by (simp add: search_hdr_def get_line_def Let_def)
qed

text \<open>
  The example header: its block begins at offset 20, the start of line 2, and ends at
  offset 76; offset 77 is the start of line 5.
\<close>

theorem search_hdr_tagged_witness:
  "finditer example_header \<noteq> []
   \<and> index_str example_header 20 = Some (2, ''/** [docexport foo] *//** Does foo.'')
   \<and> index_str example_header 77 = Some (5, [])
   \<and> start (fst (search init example_header)) = Some 20
   \<and> end_pos (fst (search init example_header)) = Some 76
   \<and> snd (search_hdr init example_header) = Inr (2, 5)"
proof -
  have h: "finditer example_header \<noteq> []" by code_simp
  have r: "search init example_header = (fst (search init example_header), snd (search init example_header))"
    by simp
  have i: "index_str example_header 20 = Some (2, ''/** [docexport foo] *//** Does foo.'')"
    "index_str example_header 77 = Some (5, [])"
    by code_simp+
  have v: "start (fst (search init example_header)) = Some 20"
    "end_pos (fst (search init example_header)) = Some 76"
    by code_simp+
  from search_hdr_tagged [OF h r] v i
  have "snd (search_hdr init example_header) = Inr (2, 5)"
    by auto
  with h i v show ?thesis by blast
qed

text \<open>
  Claim C3. For a header text in which the matcher finds no tagged block, \<open>search\<close>
  returns 0 and \<open>search_hdr\<close> returns \<open>(L - 1, L - 1)\<close>, where \<open>L\<close> is the index, counted
  from zero, of the last line that begins with \<open>#endif\<close>; when no line begins with
  \<open>#endif\<close> it returns \<open>(0, 0)\<close>.
\<close>

theorem search_hdr_untagged:
  assumes "finditer text = []"
  shows "snd (search self text) = 0
     \<and> (\<forall>L. L < length (py_split CHR 0x0A text) \<and> prefix ''#endif'' (py_split CHR 0x0A text ! L) \<and>
             (\<forall>j. L < j \<and> j < length (py_split CHR 0x0A text) \<longrightarrow>
                   \<not> prefix ''#endif'' (py_split CHR 0x0A text ! j))
           \<longrightarrow> snd (search_hdr self text) = Inr (int L - 1, int L - 1))
     \<and> ((\<forall>j<length (py_split CHR 0x0A text). \<not> prefix ''#endif'' (py_split CHR 0x0A text ! j))
           \<longrightarrow> snd (search_hdr self text) = Inr (0, 0))"
proof -
  from assms have r: "snd (search_hdr self text) =
      Inr (endif_loop (rev (py_split CHR 0x0A text)) (int (length (py_split CHR 0x0A text)) - 1))"
    by (simp add: search_hdr_def search_eq Let_def)
  have a: "snd (search self text) = 0"
    using assms by (simp add: search_eq)
  have b: "\<forall>L. L < length (py_split CHR 0x0A text) \<and> prefix ''#endif'' (py_split CHR 0x0A text ! L) \<and>
             (\<forall>j. L < j \<and> j < length (py_split CHR 0x0A text) \<longrightarrow>
                   \<not> prefix ''#endif'' (py_split CHR 0x0A text ! j))
           \<longrightarrow> snd (search_hdr self text) = Inr (int L - 1, int L - 1)"
    unfolding r by (auto simp: endif_loop_last)
  have c: "(\<forall>j<length (py_split CHR 0x0A text). \<not> prefix ''#endif'' (py_split CHR 0x0A text ! j))
           \<longrightarrow> snd (search_hdr self text) = Inr (0, 0)"
  proof
    assume "\<forall>j<length (py_split CHR 0x0A text). \<not> prefix ''#endif'' (py_split CHR 0x0A text ! j)"
    then have "\<forall>l \<in> set (rev (py_split CHR 0x0A text)). \<not> prefix ''#endif'' l"
      by (auto simp: in_set_conv_nth)
    from endif_loop_none [OF this] show "snd (search_hdr self text) = Inr (0, 0)"
      unfolding r by simp
  qed
  from a b c show ?thesis by blast
qed

text \<open>
  In the plain example header the last \<open>#endif\<close> line is line 2, so the range is
  \<open>(1, 1)\<close>; the text \<open>int x;\<close> has no such line.
\<close>

theorem search_hdr_untagged_witness:
  "finditer example_plain_header = []
   \<and> py_split CHR 0x0A example_plain_header = [''#ifndef A'', ''#endif /* A */'', ''#endif'', []]
   \<and> snd (search init example_plain_header) = 0
   \<and> snd (search_hdr init example_plain_header) = Inr (1, 1)
   \<and> finditer ''int x;'' = []
   \<and> snd (search_hdr init ''int x;'') = Inr (0, 0)"
proof -
  have h: "finditer example_plain_header = []" by code_simp
  have l: "py_split CHR 0x0A example_plain_header = [''#ifndef A'', ''#endif /* A */'', ''#endif'', []]"
    by code_simp
  have p: "(2::nat) < length (py_split CHR 0x0A example_plain_header) \<and>
           prefix ''#endif'' (py_split CHR 0x0A example_plain_header ! 2) \<and>
           (\<forall>j. 2 < j \<and> j < length (py_split CHR 0x0A example_plain_header) \<longrightarrow>
                \<not> prefix ''#endif'' (py_split CHR 0x0A example_plain_header ! j))"
    unfolding l by (auto simp: less_Suc_eq numeral_3_eq_3 numeral_2_eq_2)
  from search_hdr_untagged [OF h, of init] p
  have a: "snd (search init example_plain_header) = 0"
    and b: "snd (search_hdr init example_plain_header) = Inr (int 2 - 1, int 2 - 1)"
    by blast+
  have h2: "finditer ''int x;'' = []" by code_simp
  have l2: "py_split CHR 0x0A ''int x;'' = [''int x;'']" by code_simp
  have p2: "\<forall>j<length (py_split CHR 0x0A ''int x;''). \<not> prefix ''#endif'' (py_split CHR 0x0A ''int x;'' ! j)"
    unfolding l2 by simp
  from search_hdr_untagged [OF h2, of init] p2
  have c: "snd (search_hdr init ''int x;'') = Inr (0, 0)"
    by blast
  from h l a b h2 c show ?thesis by simp
qed

text \<open>
  Claim C10. For a header text without tagged blocks whose only line beginning with
  \<open>#endif\<close> is its first line, \<open>search_hdr\<close> returns \<open>(-1, -1)\<close>: negative line numbers,
  not the \<open>(0, 0)\<close> of a header without a target.
\<close>

theorem search_hdr_endif_first_line:
  assumes "finditer text = []"
    and "prefix ''#endif'' (py_split CHR 0x0A text ! 0)"
    and "\<forall>j. 0 < j \<and> j < length (py_split CHR 0x0A text) \<longrightarrow>
             \<not> prefix ''#endif'' (py_split CHR 0x0A text ! j)"
  shows "snd (search_hdr self text) = Inr (- 1, - 1)"
proof -
  have n: "0 < length (py_split CHR 0x0A text)"
    using py_split_not_Nil [of "CHR 0x0A" "text"] by simp
  from assms(1) have "snd (search_hdr self text) =
      Inr (endif_loop (rev (py_split CHR 0x0A text)) (int (length (py_split CHR 0x0A text)) - 1))"
    by (simp add: search_hdr_def search_eq Let_def)
  with endif_loop_last [OF n assms(2) assms(3)] show ?thesis by simp
qed

text \<open>A header of two lines that begins with \<open>#endif\<close>.\<close>

theorem search_hdr_endif_first_line_witness:
  "finditer (''#endif'' @ [CHR 0x0A] @ ''int x;'') = []
   \<and> py_split CHR 0x0A (''#endif'' @ [CHR 0x0A] @ ''int x;'') = [''#endif'', ''int x;'']
   \<and> snd (search_hdr init (''#endif'' @ [CHR 0x0A] @ ''int x;'')) = Inr (- 1, - 1)"
proof -
  let ?t = "''#endif'' @ [CHR 0x0A] @ ''int x;''"
  have h: "finditer ?t = []" by code_simp
  have l: "py_split CHR 0x0A ?t = [''#endif'', ''int x;'']" by code_simp
  have p: "prefix ''#endif'' (py_split CHR 0x0A ?t ! 0)"
    unfolding l by simp
  have q: "\<forall>j. 0 < j \<and> j < length (py_split CHR 0x0A ?t) \<longrightarrow>
             \<not> prefix ''#endif'' (py_split CHR 0x0A ?t ! j)"
    unfolding l by (auto simp: less_Suc_eq)
  from search_hdr_endif_first_line [OF h p q, of init] h l show ?thesis by blast
qed

section \<open>Rendering: \<open>docexport\<close>\<close>

text \<open>
  Claim C4. On a session whose scan has recorded the records \<open>fs\<close>, \<open>docexport\<close> takes
  every record in the order of the scan, replaces the token \<open>docimport\<close> in its matched
  text by \<open>docexport\<close> and appends \<open>;\<close>. It joins these blocks with an empty line between
  them. For the output type \<open>lines\<close> it returns the joined text split at the line breaks,
  for any other output type the joined text itself.
\<close>

theorem docexport_renders:
  assumes "funcs self = Some fs"
  shows "docexport self output_type =
           Inr (if output_type = ''lines''
                then Lines (py_split CHR 0x0A (py_join [CHR 0x0A, CHR 0x0A]
                       (map (\<lambda>r. py_replace ''docimport'' ''docexport'' (substring r) @ '';'') fs)))
                else Joined (py_join [CHR 0x0A, CHR 0x0A]
                       (map (\<lambda>r. py_replace ''docimport'' ''docexport'' (substring r) @ '';'') fs)))
         \<and> (\<forall>r \<in> set fs. token_replaced ''docimport'' ''docexport'' (substring r)
                             (py_replace ''docimport'' ''docexport'' (substring r)))"
  using assms by (simp add: docexport_def docexport_loop_map py_replace_token)

text \<open>The source text of the example, rendered both ways.\<close>

theorem docexport_renders_witness:
  "funcs (fst (search init example_source)) =
     Some [\<lparr>name = ''f'', span = (0, 36),
            substring = ''/* [docimport f] *//** F */'' @ [CHR 0x0A] @ ''int f();''\<rparr>,
           \<lparr>name = ''g'', span = (39, 87),
            substring = ''/* [docimport g] *//** docimport G */'' @ [CHR 0x0A] @ ''char *g(a)''\<rparr>]
   \<and> docexport (fst (search init example_source)) ''lines'' =
       Inr (Lines [''/* [docexport f] *//** F */'', ''int f();;'', [],
                   ''/* [docexport g] *//** docexport G */'', ''char *g(a);''])
   \<and> docexport (fst (search init example_source)) ''joined'' =
       Inr (Joined (''/* [docexport f] *//** F */'' @ [CHR 0x0A] @ ''int f();;'' @ [CHR 0x0A, CHR 0x0A] @
                    ''/* [docexport g] *//** docexport G */'' @ [CHR 0x0A] @ ''char *g(a);''))"
proof -
  let ?fs = "[\<lparr>name = ''f'', span = (0, 36),
            substring = ''/* [docimport f] *//** F */'' @ [CHR 0x0A] @ ''int f();''\<rparr>,
           \<lparr>name = ''g'', span = (39, 87),
            substring = ''/* [docimport g] *//** docimport G */'' @ [CHR 0x0A] @ ''char *g(a)''\<rparr>]"
  let ?blocks = "map (\<lambda>r. py_replace ''docimport'' ''docexport'' (substring r) @ '';'') ?fs"
  have h: "funcs (fst (search init example_source)) = Some ?fs"
    by code_simp
  have e1: "py_split CHR 0x0A (py_join [CHR 0x0A, CHR 0x0A] ?blocks) =
      [''/* [docexport f] *//** F */'', ''int f();;'', [],
       ''/* [docexport g] *//** docexport G */'', ''char *g(a);'']"
    by code_simp
  have e2: "py_join [CHR 0x0A, CHR 0x0A] ?blocks =
      ''/* [docexport f] *//** F */'' @ [CHR 0x0A] @ ''int f();;'' @ [CHR 0x0A, CHR 0x0A] @
      ''/* [docexport g] *//** docexport G */'' @ [CHR 0x0A] @ ''char *g(a);''"
    by code_simp
  from docexport_renders [OF h, of "''lines''"] e1
  have l: "docexport (fst (search init example_source)) ''lines'' =
       Inr (Lines [''/* [docexport f] *//** F */'', ''int f();;'', [],
                   ''/* [docexport g] *//** docexport G */'', ''char *g(a);''])"
    by simp
  from docexport_renders [OF h, of "''joined''"] e2
  have j: "docexport (fst (search init example_source)) ''joined'' =
       Inr (Joined (''/* [docexport f] *//** F */'' @ [CHR 0x0A] @ ''int f();;'' @ [CHR 0x0A, CHR 0x0A] @
                    ''/* [docexport g] *//** docexport G */'' @ [CHR 0x0A] @ ''char *g(a);''))"
    by simp
  from h l j show ?thesis by blast
qed

text \<open>
  Claim C8. For every session, the lines that \<open>docexport\<close> returns for \<open>lines\<close>, joined
  with a line break, are the string it returns for any other output type such as
  \<open>joined\<close>. On a session that no scan has touched both calls raise the same error.
\<close>

theorem docexport_lines_rejoin:
  assumes "output_type \<noteq> ''lines''"
  shows "(funcs self = None \<and> docexport self ''lines'' = Inl AttributeError \<and>
          docexport self output_type = Inl AttributeError)
         \<or> (\<exists>ls. docexport self ''lines'' = Inr (Lines ls) \<and>
                  docexport self output_type = Inr (Joined (py_join [CHR 0x0A] ls)))"
  using assms by (cases "funcs self") (simp_all add: docexport_def py_join_split)

text \<open>The session of the example source has records, so both calls return there.\<close>

theorem docexport_lines_rejoin_witness:
  "''joined'' \<noteq> ''lines'' \<and>
   (\<exists>ls. docexport (fst (search init example_source)) ''lines'' = Inr (Lines ls) \<and>
         docexport (fst (search init example_source)) ''joined'' =
           Inr (Joined (py_join [CHR 0x0A] ls)))"
proof -
  have h: "''joined'' \<noteq> ''lines''" by simp
  have f: "funcs (fst (search init example_source)) \<noteq> None" by code_simp
  from docexport_lines_rejoin [OF h, of "fst (search init example_source)"] f h
  show ?thesis by blast
qed

text \<open>
  Claim C9. A record whose matched text has no occurrence of the token \<open>docimport\<close>, as
  one that already reads \<open>docexport\<close>, is rendered as its matched text with \<open>;\<close>
  appended; the records before and after it are rendered as always.
\<close>

theorem docexport_keeps_exported:
  assumes "funcs self = Some (pre @ f # post)"
    and "\<not> sublist ''docimport'' (substring f)"
  shows "docexport self output_type =
           Inr (if output_type = ''lines''
                then Lines (py_split CHR 0x0A (py_join [CHR 0x0A, CHR 0x0A]
                       (map (\<lambda>r. py_replace ''docimport'' ''docexport'' (substring r) @ '';'') pre
                        @ (substring f @ '';'')
                        # map (\<lambda>r. py_replace ''docimport'' ''docexport'' (substring r) @ '';'') post)))
                else Joined (py_join [CHR 0x0A, CHR 0x0A]
                       (map (\<lambda>r. py_replace ''docimport'' ''docexport'' (substring r) @ '';'') pre
                        @ (substring f @ '';'')
                        # map (\<lambda>r. py_replace ''docimport'' ''docexport'' (substring r) @ '';'') post)))"
  using assms by (simp add: docexport_def docexport_loop_map py_replace_absent)

text \<open>The block of the example header reads \<open>docexport\<close> and is rendered unchanged.\<close>

theorem docexport_keeps_exported_witness:
  "funcs (fst (search init example_header)) =
     Some ([] @ \<lparr>name = ''foo'', span = (20, 76),
            substring = ''/** [docexport foo] *//** Does foo.'' @ [CHR 0x0A] @ '' */'' @ [CHR 0x0A] @
                        ''void foo(int x);''\<rparr> # [])
   \<and> \<not> sublist ''docimport'' (''/** [docexport foo] *//** Does foo.'' @ [CHR 0x0A] @ '' */'' @ [CHR 0x0A] @
                        ''void foo(int x);'')
   \<and> docexport (fst (search init example_header)) ''joined'' =
       Inr (Joined (''/** [docexport foo] *//** Does foo.'' @ [CHR 0x0A] @ '' */'' @ [CHR 0x0A] @
                        ''void foo(int x);;''))"
proof -
  let ?f = "\<lparr>name = ''foo'', span = (20, 76),
            substring = ''/** [docexport foo] *//** Does foo.'' @ [CHR 0x0A] @ '' */'' @ [CHR 0x0A] @
                        ''void foo(int x);''\<rparr>"
  have h: "funcs (fst (search init example_header)) = Some ([] @ ?f # [])"
    by code_simp
  have n: "\<not> sublist ''docimport'' (substring ?f)"
    by code_simp
  from docexport_keeps_exported [OF h n, of "''joined''"]
  have "docexport (fst (search init example_header)) ''joined'' =
       Inr (Joined (''/** [docexport foo] *//** Does foo.'' @ [CHR 0x0A] @ '' */'' @ [CHR 0x0A] @
                        ''void foo(int x);;''))"
    by simp
  with h n show ?thesis by simp
qed

text \<open>\<open>docexport\<close> returns on every session that a scan has touched.\<close>

lemma docexport_after_search:
  "\<exists>r. docexport (fst (search self text)) output_type = Inr r"
  by (simp add: docexport_def search_eq Let_def)

text \<open>
  Claim C7. \<open>search\<close> and \<open>search_hdr\<close> return for every session and every text (see
  \<open>search_hdr_total\<close>), and \<open>docexport\<close> returns after a scan. The claim that \<open>docexport\<close>
  returns on every session fails on a freshly constructed one: there it raises
  \<open>AttributeError\<close>, for every output type, because \<open>__init__\<close> creates \<open>start\<close> and
  \<open>end\<close> but not \<open>funcs\<close>.
\<close>

theorem docexport_before_search:
  "docexport init output_type = Inl AttributeError"
  by (simp add: docexport_def init_def)

end
